theory Spec2Isabelle
  imports Main
begin

section \<open>The user idle service of angular-simple-user-idle\<close>

text \<open>
  The service (class \<open>UserIdleService\<close>) is a small reactive program: two
  \<open>bufferTime\<close> pipelines over a feed of raw activity events, and a
  one-second countdown started by \<open>switchMap\<close> on the first empty window.
  The embedding keeps the fields of the class as a record, the subscription
  objects in a store addressed by references, and the wall clock
  (\<open>Date.now()\<close>, whole milliseconds) as a field of the state. Every callback
  of the source is a function on that state; time passes one millisecond at a
  time and runs the timers that are due.

  Numbers are \<open>int\<close>: time stamps are whole numbers by \<open>Math.floor\<close>, and
  the configuration is taken to hold whole numbers of seconds and milliseconds.
\<close>

subsection \<open>Configuration (user-idle.config.ts)\<close>

text \<open>
  Both fields of \<open>UserIdleConfig\<close> are optional: \<open>None\<close> is a field the
  object does not have.
\<close>

record UserIdleConfig =
  timeout :: "int option"
  sensitivityMilliseconds :: "int option"

definition DEFAULT_CONFIG :: UserIdleConfig where
  "DEFAULT_CONFIG = \<lparr>timeout = Some 300, sensitivityMilliseconds = Some 1500\<rparr>"

text \<open>
  The object spread \<open>{...a, ...b}\<close>: every field that \<open>b\<close> has overrides the
  field of \<open>a\<close>. The injected configuration is \<open>@Optional()\<close>, so \<open>b\<close> may be
  \<open>null\<close> (here \<open>None\<close>), and spreading \<open>null\<close> adds nothing.
\<close>

definition spread :: "UserIdleConfig \<Rightarrow> UserIdleConfig option \<Rightarrow> UserIdleConfig" where
  "spread a b =
     (case b of
        None \<Rightarrow> a
      | Some c \<Rightarrow>
          \<lparr>timeout = (case timeout c of None \<Rightarrow> timeout a | Some v \<Rightarrow> Some v),
           sensitivityMilliseconds =
             (case sensitivityMilliseconds c of
                None \<Rightarrow> sensitivityMilliseconds a
              | Some v \<Rightarrow> Some v)\<rparr>)"

subsection \<open>Observables, subscriptions and the state of the service\<close>

text \<open>Raw activity events carry any value; the payload is never inspected.\<close>

type_synonym event = nat

text \<open>
  An activity feed is a hot, multicast source that never completes, as
  \<open>fromEvent\<close> is: the default feed or a caller's own, told apart by a number.
\<close>

datatype source = DEFAULT_ACTIVITY_EVENTS | CustomEvents nat

text \<open>
  The inner observable of \<open>runTimer\<close>, once subscribed by \<open>switchMap\<close>:
  \<open>interval(1000)\<close> with its next tick, cancelled by \<open>takeUntil\<close> as soon
  as the notifier emits. The notifier is \<open>this.activityEvents$\<close> as read when
  \<open>runTimer\<close> ran.
\<close>

record countdown =
  notifier :: "source option"
  tick_due :: int

datatype pipeline = ActivityPipeline | IdlePipeline

text \<open>
  A subscribed pipeline of \<open>startWatching\<close>: the \<open>Subscription\<close> with its
  \<open>closed\<close> flag, the feed it listens to, the open buffer of \<open>bufferTime\<close>
  with its period and next flush, and, for the idle pipeline, the inner
  subscription that \<open>switchMap\<close> holds.
\<close>

record subscription =
  closed :: bool
  pipeline :: pipeline
  upstream :: "source option"
  buffer :: "event list"
  period :: int
  flush_due :: int
  innerSubscription :: "countdown option"

text \<open>
  What the service sends out, in order: a value on \<open>idleDetected$\<close>, a value
  on the internal subject \<open>timeout$\<close>, a value delivered to a subscriber of
  \<open>onTimeout()\<close>, a line of \<open>console.error\<close>.
\<close>

datatype emission =
    IdleStatusChanged bool
  | TimeoutSignal bool
  | OnTimeout nat bool
  | ConsoleError string

text \<open>
  The fields of \<open>UserIdleService\<close>. \<open>None\<close> is \<open>undefined\<close>; the two
  subscription fields hold references into the store of subscription objects.
  \<open>timeoutObservers\<close> are the live subscribers of \<open>onTimeout()\<close>, in the
  order they subscribed, each with its own copy of the pipeline of \<open>onTimeout\<close>.
\<close>

record UserIdleService =
  config :: UserIdleConfig
  activityEvents :: "source option"
  lastActivity :: int
  isIdleDetected :: "bool option"
  idleSubscription :: "nat option"
  activitySubscription :: "nat option"
  store :: "nat \<Rightarrow> subscription option"
  nextRef :: nat
  timeoutObservers :: "nat list"
  clock :: int
  outputs :: "emission list"

definition nowInSeconds :: "UserIdleService \<Rightarrow> int" where
  "nowInSeconds s = clock s div 1000"

text \<open>The constructor, run when the clock shows \<open>now\<close>.\<close>

definition constructor :: "UserIdleConfig option \<Rightarrow> int \<Rightarrow> UserIdleService" where
  "constructor cfg now =
     \<lparr>config = spread DEFAULT_CONFIG cfg,
      activityEvents = None,
      lastActivity = now div 1000,
      isIdleDetected = None,
      idleSubscription = None,
      activitySubscription = None,
      store = (\<lambda>_. None),
      nextRef = 0,
      timeoutObservers = [],
      clock = now,
      outputs = []\<rparr>"

definition getConfig :: "UserIdleService \<Rightarrow> UserIdleConfig" where
  "getConfig s = config s"

subsection \<open>The private methods and the teardown of a subscription\<close>

definition setIdleness :: "bool \<Rightarrow> UserIdleService \<Rightarrow> UserIdleService" where
  "setIdleness idleness s =
     s\<lparr>isIdleDetected := Some idleness,
       outputs := outputs s @ [IdleStatusChanged idleness]\<rparr>"

text \<open>
  \<open>runTimer()\<close> builds the countdown: \<open>interval(1000)\<close>, first tick one
  second after it is subscribed, \<open>takeUntil(this.activityEvents$)\<close>.
\<close>

definition runTimer :: "UserIdleService \<Rightarrow> countdown" where
  "runTimer s = \<lparr>notifier = activityEvents s, tick_due = clock s + 1000\<rparr>"

text \<open>
  \<open>Subscription.unsubscribe()\<close>: nothing on a closed subscription (or a
  dangling reference); otherwise the subscription closes, its timers and
  listeners go, and a live countdown is torn down with it, which runs
  \<open>finalize(() => this.setIdleness(false))\<close>.
\<close>

definition unsubscribe :: "nat \<Rightarrow> UserIdleService \<Rightarrow> UserIdleService" where
  "unsubscribe r s =
     (case store s r of
        None \<Rightarrow> s
      | Some p \<Rightarrow>
          if closed p then s
          else
            let s1 = s\<lparr>store := (store s)(r \<mapsto> p\<lparr>closed := True, innerSubscription := None\<rparr>)\<rparr>
            in (case innerSubscription p of
                  None \<Rightarrow> s1
                | Some c \<Rightarrow> setIdleness False s1))"

subsection \<open>The public methods\<close>

definition stopWatching :: "UserIdleService \<Rightarrow> UserIdleService" where
  "stopWatching s =
     (let s1 = (case idleSubscription s of None \<Rightarrow> s | Some r \<Rightarrow> unsubscribe r s)
      in (case activitySubscription s1 of None \<Rightarrow> s1 | Some r \<Rightarrow> unsubscribe r s1))"

text \<open>
  A pipeline \<open>this.activityEvents$.pipe(bufferTime(sensitivityMilliseconds), ...)\<close>
  at the moment it is subscribed: an empty buffer, first flush one period from
  now. A missing period is a delay of 0.
\<close>

definition newSubscription :: "pipeline \<Rightarrow> UserIdleService \<Rightarrow> subscription" where
  "newSubscription k s =
     (let ms = (case sensitivityMilliseconds (config s) of None \<Rightarrow> 0 | Some v \<Rightarrow> v)
      in \<lparr>closed = False, pipeline = k, upstream = activityEvents s, buffer = [],
          period = ms, flush_due = clock s + ms, innerSubscription = None\<rparr>)"

definition allocate :: "subscription \<Rightarrow> UserIdleService \<Rightarrow> UserIdleService" where
  "allocate p s = s\<lparr>store := (store s)(nextRef s \<mapsto> p), nextRef := Suc (nextRef s)\<rparr>"

definition startWatching :: "UserIdleService \<Rightarrow> UserIdleService" where
  "startWatching s =
     (let s1 = stopWatching s;
          s2 = (case activityEvents s1 of
                  None \<Rightarrow> s1\<lparr>activityEvents := Some DEFAULT_ACTIVITY_EVENTS\<rparr>
                | Some _ \<Rightarrow> s1);
          s3 = (allocate (newSubscription ActivityPipeline s2) s2)
                 \<lparr>activitySubscription := Some (nextRef s2)\<rparr>;
          s4 = (allocate (newSubscription IdlePipeline s3) s3)
                 \<lparr>idleSubscription := Some (nextRef s3)\<rparr>
      in s4)"

text \<open>
  The subscription objects behind the two fields, and the test
  \<open>sub && !sub.closed\<close>.
\<close>

definition idleSub :: "UserIdleService \<Rightarrow> subscription option" where
  "idleSub s = (case idleSubscription s of None \<Rightarrow> None | Some r \<Rightarrow> store s r)"

definition activitySub :: "UserIdleService \<Rightarrow> subscription option" where
  "activitySub s = (case activitySubscription s of None \<Rightarrow> None | Some r \<Rightarrow> store s r)"

definition live :: "subscription option \<Rightarrow> bool" where
  "live x = (case x of None \<Rightarrow> False | Some p \<Rightarrow> \<not> closed p)"

definition setCustomActivityEvents :: "source \<Rightarrow> UserIdleService \<Rightarrow> UserIdleService" where
  "setCustomActivityEvents customEvents s =
     (if live (idleSub s)
      then s\<lparr>outputs := outputs s @
                 [ConsoleError ''Call stopWatching() before set custom activity events'']\<rparr>
      else s\<lparr>activityEvents := Some customEvents\<rparr>)"

text \<open>
  \<open>onTimeout()\<close> returns a cold pipeline over \<open>timeout$\<close>; a caller that
  subscribes to it becomes an observer of the subject, and leaves it when it
  unsubscribes.
\<close>

definition onTimeout_subscribe :: "nat \<Rightarrow> UserIdleService \<Rightarrow> UserIdleService" where
  "onTimeout_subscribe k s = s\<lparr>timeoutObservers := timeoutObservers s @ [k]\<rparr>"

definition onTimeout_unsubscribe :: "nat \<Rightarrow> UserIdleService \<Rightarrow> UserIdleService" where
  "onTimeout_unsubscribe k s = s\<lparr>timeoutObservers := remove1 k (timeoutObservers s)\<rparr>"

text \<open>
  One observer's copy of the pipeline of \<open>onTimeout()\<close> on a value of
  \<open>timeout$\<close>: \<open>filter(timeout => !!timeout)\<close>,
  \<open>tap(() => this.stopWatching())\<close>, \<open>map(() => true)\<close>, then the subscriber.
\<close>

definition onTimeout :: "nat \<Rightarrow> bool \<Rightarrow> UserIdleService \<Rightarrow> UserIdleService" where
  "onTimeout k v s =
     (if v then (let s1 = stopWatching s in s1\<lparr>outputs := outputs s1 @ [OnTimeout k True]\<rparr>)
      else s)"

text \<open>\<open>this.timeout$.next(v)\<close>: every observer in turn.\<close>

definition timeout_next :: "bool \<Rightarrow> UserIdleService \<Rightarrow> UserIdleService" where
  "timeout_next v s =
     fold (\<lambda>k. onTimeout k v) (timeoutObservers s)
       (s\<lparr>outputs := outputs s @ [TimeoutSignal v]\<rparr>)"

subsection \<open>The callbacks of the pipelines\<close>

text \<open>
  \<open>switchMap(() => this._ngZone.runOutsideAngular(this.runTimer))\<close> on a value
  of the idle pipeline \<open>r\<close>: the projection runs, the previous inner
  subscription, if there is one, is unsubscribed (its \<open>finalize\<close> runs), and
  the new countdown is subscribed.
\<close>

definition switchMap :: "nat \<Rightarrow> UserIdleService \<Rightarrow> UserIdleService" where
  "switchMap r s =
     (case store s r of
        None \<Rightarrow> s
      | Some p \<Rightarrow>
          let c = runTimer s;
              s1 = (case innerSubscription p of None \<Rightarrow> s | Some old \<Rightarrow> setIdleness False s)
          in s1\<lparr>store := (store s1)(r \<mapsto> p\<lparr>innerSubscription := Some c\<rparr>)\<rparr>)"

text \<open>
  The timer of \<open>bufferTime\<close> of pipeline \<open>r\<close>: the buffer is emitted and a
  new one opened. The activity pipeline goes on with
  \<open>filter(arr => !!arr.length)\<close> and the \<open>tap\<close> that records the time; the
  idle pipeline with \<open>filter(arr => !arr.length && !this.isIdleDetected)\<close>,
  \<open>tap(this.setIdleness)\<close> on \<open>true\<close>, and \<open>switchMap\<close>.
\<close>

definition flush :: "nat \<Rightarrow> UserIdleService \<Rightarrow> UserIdleService" where
  "flush r s =
     (case store s r of
        None \<Rightarrow> s
      | Some p \<Rightarrow>
          if closed p then s
          else
            let arr = buffer p;
                s1 = s\<lparr>store := (store s)(r \<mapsto> p\<lparr>buffer := [], flush_due := flush_due p + period p\<rparr>)\<rparr>
            in (case pipeline p of
                  ActivityPipeline \<Rightarrow>
                    if arr \<noteq> [] then s1\<lparr>lastActivity := nowInSeconds s1\<rparr> else s1
                | IdlePipeline \<Rightarrow>
                    if arr = [] \<and> isIdleDetected s1 \<noteq> Some True
                    then switchMap r (setIdleness True s1)
                    else s1))"

text \<open>
  The test of the \<open>tap\<close> of \<open>runTimer\<close>:
  \<open>this.lastActivity + this.config.timeout < UserIdleService.nowInSeconds()\<close>.
  With no \<open>timeout\<close> in the configuration the sum is \<open>NaN\<close> and the
  comparison false.
\<close>

definition expired :: "UserIdleService \<Rightarrow> bool" where
  "expired s =
     (case timeout (config s) of
        None \<Rightarrow> False
      | Some t \<Rightarrow> lastActivity s + t < nowInSeconds s)"

text \<open>
  A tick of the countdown of pipeline \<open>r\<close>: \<open>interval(1000)\<close> emits, the
  \<open>tap\<close> runs, and the next tick is one second later.
\<close>

definition tick :: "nat \<Rightarrow> UserIdleService \<Rightarrow> UserIdleService" where
  "tick r s =
     (case store s r of
        None \<Rightarrow> s
      | Some p \<Rightarrow>
          if closed p then s
          else
            (case innerSubscription p of
               None \<Rightarrow> s
             | Some c \<Rightarrow>
                 let s1 = s\<lparr>store := (store s)
                            (r \<mapsto> p\<lparr>innerSubscription := Some (c\<lparr>tick_due := tick_due c + 1000\<rparr>)\<rparr>)\<rparr>
                 in if expired s1 then timeout_next True s1 else s1))"

text \<open>
  A raw event \<open>e\<close> of the feed \<open>src\<close> reaches pipeline \<open>r\<close>: the buffer of
  \<open>bufferTime\<close> takes it when the pipeline listens to that feed, and
  \<open>takeUntil\<close> completes a countdown whose notifier it is, which runs the
  \<open>finalize\<close> of \<open>runTimer\<close>. The feed calls its listeners in the order
  they subscribed; filling a buffer sends nothing, so one pass over the
  subscriptions, oldest first, gives the same outputs and the same state.
\<close>

definition deliver :: "source \<Rightarrow> event \<Rightarrow> nat \<Rightarrow> UserIdleService \<Rightarrow> UserIdleService" where
  "deliver src e r s =
     (case store s r of
        None \<Rightarrow> s
      | Some p \<Rightarrow>
          if closed p then s
          else
            let p1 = (if upstream p = Some src then p\<lparr>buffer := buffer p @ [e]\<rparr> else p)
            in (case innerSubscription p1 of
                  None \<Rightarrow> s\<lparr>store := (store s)(r \<mapsto> p1)\<rparr>
                | Some c \<Rightarrow>
                    if notifier c = Some src
                    then setIdleness False
                           (s\<lparr>store := (store s)(r \<mapsto> p1\<lparr>innerSubscription := None\<rparr>)\<rparr>)
                    else s\<lparr>store := (store s)(r \<mapsto> p1)\<rparr>))"

definition activityEvent :: "source \<Rightarrow> event \<Rightarrow> UserIdleService \<Rightarrow> UserIdleService" where
  "activityEvent src e s = fold (deliver src e) [0..<nextRef s] s"

subsection \<open>Time\<close>

text \<open>
  Timers are ideal: the interval of \<open>bufferTime\<close> and \<open>interval(1000)\<close> run
  their callbacks in the very millisecond they are due, never late, and then
  are due one period later. A period that is not positive stays due, so such
  a timer runs every millisecond. Callbacks run to their end one after the
  other, as the event loop has it; a subscriber that calls back into the
  service from inside its own callback is not part of the model.

  The timers of subscription \<open>r\<close> that are due at the present millisecond:
  the flush of \<open>bufferTime\<close>, then the tick of the countdown.
\<close>

definition fire :: "nat \<Rightarrow> UserIdleService \<Rightarrow> UserIdleService" where
  "fire r s =
     (let s1 = (case store s r of
                  None \<Rightarrow> s
                | Some p \<Rightarrow> if \<not> closed p \<and> flush_due p \<le> clock s then flush r s else s)
      in (case store s1 r of
            None \<Rightarrow> s1
          | Some p \<Rightarrow>
              (case innerSubscription p of
                 None \<Rightarrow> s1
               | Some c \<Rightarrow> if \<not> closed p \<and> tick_due c \<le> clock s1 then tick r s1 else s1)))"

definition runDueTimers :: "UserIdleService \<Rightarrow> UserIdleService" where
  "runDueTimers s = fold fire [0..<nextRef s] s"

text \<open>
  One millisecond passes: the clock moves on, and the timers due then run in
  the order their subscriptions were made.
\<close>

definition advance :: "UserIdleService \<Rightarrow> UserIdleService" where
  "advance s = runDueTimers (s\<lparr>clock := clock s + 1\<rparr>)"

text \<open>\<open>elapse n\<close> lets \<open>n\<close> milliseconds pass with no call and no raw event.\<close>

fun elapse :: "nat \<Rightarrow> UserIdleService \<Rightarrow> UserIdleService" where
  "elapse 0 s = s"
| "elapse (Suc n) s = elapse n (advance s)"

subsection \<open>Runs of the service\<close>

datatype action =
    StartWatching
  | StopWatching
  | SetCustomActivityEvents source
  | SubscribeOnTimeout nat
  | UnsubscribeOnTimeout nat
  | ActivityEvent source event
  | Elapse nat

fun step :: "action \<Rightarrow> UserIdleService \<Rightarrow> UserIdleService" where
  "step StartWatching s = startWatching s"
| "step StopWatching s = stopWatching s"
| "step (SetCustomActivityEvents src) s = setCustomActivityEvents src s"
| "step (SubscribeOnTimeout k) s = onTimeout_subscribe k s"
| "step (UnsubscribeOnTimeout k) s = onTimeout_unsubscribe k s"
| "step (ActivityEvent src e) s = activityEvent src e s"
| "step (Elapse n) s = elapse n s"

text \<open>
  The states a service can be in: built by the constructor, then any calls,
  raw events and passing of time.
\<close>

inductive reachable :: "UserIdleService \<Rightarrow> bool" where
  reachable_constructor: "reachable (constructor cfg now)"
| reachable_step: "reachable s \<Longrightarrow> reachable (step a s)"

definition run :: "action list \<Rightarrow> UserIdleService \<Rightarrow> UserIdleService" where
  "run as s = fold step as s"

text \<open>What happens to a service that nobody calls: raw events and passing time.\<close>

fun no_call :: "action \<Rightarrow> bool" where
  "no_call (ActivityEvent src e) = True"
| "no_call (Elapse n) = True"
| "no_call a = False"

subsection \<open>What can be seen of a state\<close>

text \<open>
  The countdown that is running for the service, if any; the references of
  all subscription objects that hold a countdown; and all subscriptions that
  are still open, oldest first.
\<close>

definition runningCountdown :: "UserIdleService \<Rightarrow> countdown option" where
  "runningCountdown s =
     (case idleSub s of
        None \<Rightarrow> None
      | Some p \<Rightarrow> if closed p then None else innerSubscription p)"

definition countdowns :: "UserIdleService \<Rightarrow> nat list" where
  "countdowns s =
     filter (\<lambda>r. case store s r of None \<Rightarrow> False | Some p \<Rightarrow> innerSubscription p \<noteq> None)
       [0..<nextRef s]"

definition liveSubscriptions :: "UserIdleService \<Rightarrow> subscription list" where
  "liveSubscriptions s =
     concat (map (\<lambda>r. case store s r of
                         None \<Rightarrow> []
                       | Some p \<Rightarrow> if closed p then [] else [p])
                 [0..<nextRef s])"

text \<open>
  What has been sent since the last \<open>true\<close> on \<open>idleDetected$\<close>, that is,
  since the running countdown started; and the property that no subscriber
  of \<open>onTimeout()\<close> has received anything from a countdown that still runs.
\<close>

definition sinceIdle :: "emission list \<Rightarrow> emission list" where
  "sinceIdle xs = rev (takeWhile (\<lambda>x. x \<noteq> IdleStatusChanged True) (rev xs))"



subsection \<open>The invariant of the reachable states\<close>

text \<open>
  A reference is dead when nothing can run for it any more: no object, or a
  closed subscription with no countdown.
\<close>

definition dead :: "subscription option \<Rightarrow> bool" where
  "dead x = (case x of None \<Rightarrow> True | Some p \<Rightarrow> closed p \<and> innerSubscription p = None)"

text \<open>
  The two subscriptions of one call of \<open>startWatching\<close> belong together:
  they open and close together, listen to the feed of the service, are
  flushed at the same moments, and the idle flag is raised exactly while the
  idle pipeline holds a countdown, whose next tick is within a second.
\<close>

definition pair_ok :: "UserIdleService \<Rightarrow> subscription \<Rightarrow> subscription \<Rightarrow> bool" where
  "pair_ok s pa pi \<longleftrightarrow>
     pipeline pa = ActivityPipeline \<and> pipeline pi = IdlePipeline \<and>
     innerSubscription pa = None \<and> closed pa = closed pi \<and>
     (isIdleDetected s = Some True \<longleftrightarrow> innerSubscription pi \<noteq> None) \<and>
     (closed pi \<longrightarrow> innerSubscription pi = None) \<and>
     (\<not> closed pi \<longrightarrow>
        activityEvents s \<noteq> None \<and> upstream pa = activityEvents s \<and>
        upstream pi = activityEvents s \<and> buffer pa = buffer pi \<and>
        flush_due pa = flush_due pi \<and> period pa = period pi) \<and>
     (\<forall>c. innerSubscription pi = Some c \<longrightarrow>
        notifier c = activityEvents s \<and> buffer pi = [] \<and>
        clock s < tick_due c \<and> tick_due c \<le> clock s + 1000)"

text \<open>Before the first \<open>startWatching\<close> there is no subscription object.\<close>

definition never_started :: "UserIdleService \<Rightarrow> bool" where
  "never_started s \<longleftrightarrow>
     activitySubscription s = None \<and> idleSubscription s = None \<and> nextRef s = 0 \<and>
     isIdleDetected s \<noteq> Some True"

text \<open>
  After it, the fields of the service refer to the two youngest objects of
  the store, and every older one is dead.
\<close>

definition session :: "UserIdleService \<Rightarrow> nat \<Rightarrow> subscription \<Rightarrow> subscription \<Rightarrow> bool" where
  "session s a pa pi \<longleftrightarrow>
     activitySubscription s = Some a \<and> idleSubscription s = Some (Suc a) \<and>
     nextRef s = Suc (Suc a) \<and> store s a = Some pa \<and> store s (Suc a) = Some pi \<and>
     (\<forall>r<a. dead (store s r)) \<and> pair_ok s pa pi"

text \<open>The invariant of the service.\<close>

definition consistent :: "UserIdleService \<Rightarrow> bool" where
  "consistent s \<longleftrightarrow>
     lastActivity s \<le> clock s div 1000 \<and>
     (\<forall>r. nextRef s \<le> r \<longrightarrow> store s r = None) \<and>
     (never_started s \<or> (\<exists>a pa pi. session s a pa pi))"

text \<open>Nothing is live: the state \<open>stopWatching\<close> leaves behind.\<close>

definition stopped :: "UserIdleService \<Rightarrow> bool" where
  "stopped s \<longleftrightarrow> (\<forall>r. dead (store s r)) \<and> isIdleDetected s \<noteq> Some True"

text \<open>A subscription after the millisecond \<open>t\<close>, as far as its buffer goes.\<close>

definition flushed :: "int \<Rightarrow> subscription \<Rightarrow> subscription" where
  "flushed t p = (if flush_due p \<le> t then p\<lparr>buffer := [], flush_due := flush_due p + period p\<rparr> else p)"

text \<open>
  A session whose countdown \<open>c\<close> is running, a session that has been
  stopped, and what stays the same while \<open>n\<close> milliseconds pass.
\<close>

definition counting :: "UserIdleService \<Rightarrow> nat \<Rightarrow> countdown \<Rightarrow> bool" where
  "counting s a c \<longleftrightarrow>
     (\<exists>pa pi. session s a pa pi \<and> \<not> closed pi \<and> innerSubscription pi = Some c)"

definition halted :: "UserIdleService \<Rightarrow> nat \<Rightarrow> bool" where
  "halted s a \<longleftrightarrow> (\<exists>pa pi. session s a pa pi \<and> closed pi)"

definition later :: "UserIdleService \<Rightarrow> int \<Rightarrow> UserIdleService \<Rightarrow> bool" where
  "later s n s' \<longleftrightarrow>
     clock s' = clock s + n \<and> config s' = config s \<and> lastActivity s' = lastActivity s \<and>
     timeoutObservers s' = timeoutObservers s \<and> activityEvents s' = activityEvents s"

subsection \<open>Example states\<close>

text \<open>
  A few concrete runs, for the theorems to be tried on. The threshold is one
  second and the sensitivity one millisecond; the service is built when the
  clock shows 999 ms, so \<open>lastActivity\<close> is 0. \<open>example_started\<close> has just
  called \<open>startWatching()\<close>; in \<open>example_idle\<close> the first window has passed
  empty and the countdown runs. \<open>example_overdue\<close> starts to watch a second
  after it was built, so that the threshold is passed when its countdown
  starts. \<open>example_observed\<close> has one subscriber to \<open>onTimeout()\<close>.
\<close>

definition example_config :: "UserIdleConfig option" where
  "example_config = Some \<lparr>timeout = Some 1, sensitivityMilliseconds = Some 1\<rparr>"

definition example_started :: UserIdleService where
  "example_started = startWatching (constructor example_config 999)"

definition example_idle :: UserIdleService where
  "example_idle = elapse 1 example_started"

definition example_overdue :: UserIdleService where
  "example_overdue = elapse 1 (startWatching (elapse 1000 (constructor example_config 999)))"

definition example_observed :: UserIdleService where
  "example_observed = onTimeout_subscribe 7 (constructor example_config 999)"

definition example_observed_idle :: UserIdleService where
  "example_observed_idle = elapse 1 (startWatching example_observed)"

section \<open>Lemmas\<close>

lemma consistent_cases [consumes 1, case_names never session]:
  assumes "consistent s"
  obtains "never_started s" | a pa pi where "session s a pa pi"
  using assms by (auto simp: consistent_def)

lemma consistent_constructor: "consistent (constructor cfg now)"
  by (simp add: consistent_def never_started_def constructor_def)

lemma unsubscribe_closed: "store s r = Some p \<Longrightarrow> closed p \<Longrightarrow> unsubscribe r s = s"
  by (simp add: unsubscribe_def)

lemma stopWatching_never: "never_started s \<Longrightarrow> stopWatching s = s"
  by (simp add: never_started_def stopWatching_def)

lemma stopWatching_session_closed:
  "session s a pa pi \<Longrightarrow> closed pi \<Longrightarrow> stopWatching s = s"
  by (simp add: session_def pair_ok_def stopWatching_def unsubscribe_def)

lemma stopWatching_session_open:
  assumes "session s a pa pi" and "\<not> closed pi"
  shows "stopWatching s =
     s\<lparr>store := (store s)(Suc a \<mapsto> pi\<lparr>closed := True, innerSubscription := None\<rparr>,
                           a \<mapsto> pa\<lparr>closed := True, innerSubscription := None\<rparr>),
       isIdleDetected := (if innerSubscription pi = None then isIdleDetected s else Some False),
       outputs := outputs s @ (if innerSubscription pi = None then [] else [IdleStatusChanged False])\<rparr>"
  using assms
  by (cases "innerSubscription pi")
     (simp_all add: session_def pair_ok_def stopWatching_def unsubscribe_def setIdleness_def)

lemma session_stopWatching:
  assumes "session s a pa pi"
  shows "session (stopWatching s) a (pa\<lparr>closed := True\<rparr>) (pi\<lparr>closed := True, innerSubscription := None\<rparr>)"
proof (cases "closed pi")
  case True
  have "stopWatching s = s" using assms True by (rule stopWatching_session_closed)
  moreover from assms True have "pa\<lparr>closed := True\<rparr> = pa" "pi\<lparr>closed := True, innerSubscription := None\<rparr> = pi"
    by (simp_all add: session_def pair_ok_def)
  ultimately show ?thesis using assms by simp
next
  case False
  from assms have "innerSubscription pa = None" by (simp add: session_def pair_ok_def)
  then have e: "pa\<lparr>closed := True, innerSubscription := None\<rparr> = pa\<lparr>closed := True\<rparr>" by simp
  show ?thesis
    using assms False unfolding stopWatching_session_open[OF assms False] e
    by (simp add: session_def pair_ok_def)
qed

lemma stopWatching_frame:
  "lastActivity (stopWatching s) = lastActivity s \<and> clock (stopWatching s) = clock s \<and>
   nextRef (stopWatching s) = nextRef s \<and> config (stopWatching s) = config s \<and>
   activityEvents (stopWatching s) = activityEvents s \<and>
   timeoutObservers (stopWatching s) = timeoutObservers s \<and>
   idleSubscription (stopWatching s) = idleSubscription s \<and>
   activitySubscription (stopWatching s) = activitySubscription s"
  by (simp add: stopWatching_def unsubscribe_def setIdleness_def Let_def split: option.split)

lemma stopWatching_store_None:
  "store s r = None \<Longrightarrow> store (stopWatching s) r = None"
  by (auto simp: stopWatching_def unsubscribe_def setIdleness_def Let_def split: option.split)

lemma consistent_stopWatching:
  assumes "consistent s" shows "consistent (stopWatching s)"
  using assms
proof (cases rule: consistent_cases)
  case never
  then show ?thesis using assms by (simp add: stopWatching_never)
next
  case (session a pa pi)
  from session_stopWatching[OF this] assms show ?thesis
    by (auto simp: consistent_def stopWatching_frame stopWatching_store_None)
qed

text \<open>After stopWatching nothing is live.\<close>

lemma stopped_stopWatching:
  assumes "consistent s" shows "stopped (stopWatching s)"
  using assms
proof (cases rule: consistent_cases)
  case never
  with assms show ?thesis
    by (simp add: stopWatching_never stopped_def consistent_def never_started_def dead_def)
next
  case (session a pa pi)
  have "dead (store (stopWatching s) r)" for r
  proof -
    have "nextRef (stopWatching s) = Suc (Suc a)"
      using session_stopWatching[OF session] by (simp add: session_def)
    then consider "r < a" | "r = a" | "r = Suc a" | "nextRef (stopWatching s) \<le> r"
      by linarith
    then show ?thesis
      using session_stopWatching[OF session] consistent_stopWatching[OF assms]
      by cases (auto simp: session_def pair_ok_def consistent_def dead_def)
  qed
  moreover have "isIdleDetected (stopWatching s) \<noteq> Some True"
    using session_stopWatching[OF session] by (simp add: session_def pair_ok_def)
  ultimately show ?thesis by (simp add: stopped_def)
qed

lemma session_startWatching:
  assumes "consistent s"
  shows "session (startWatching s) (nextRef s)
           (newSubscription ActivityPipeline ((stopWatching s)\<lparr>activityEvents := activityEvents (startWatching s)\<rparr>))
           (newSubscription IdlePipeline ((stopWatching s)\<lparr>activityEvents := activityEvents (startWatching s)\<rparr>))"
proof -
  let ?s1 = "stopWatching s"
  have st: "stopped ?s1" using assms by (rule stopped_stopWatching)
  have fr: "nextRef ?s1 = nextRef s" by (simp add: stopWatching_frame)
  show ?thesis
    using st unfolding stopped_def
    by (cases "activityEvents ?s1")
       (simp_all add: startWatching_def Let_def allocate_def newSubscription_def session_def
          pair_ok_def fr)
qed

lemma startWatching_frame:
  "lastActivity (startWatching s) = lastActivity s \<and> clock (startWatching s) = clock s \<and>
   nextRef (startWatching s) = Suc (Suc (nextRef s)) \<and> config (startWatching s) = config s \<and>
   timeoutObservers (startWatching s) = timeoutObservers s"
  by (simp add: startWatching_def Let_def allocate_def stopWatching_frame split: option.split)

lemma startWatching_store_None:
  "store s r = None \<Longrightarrow> Suc (nextRef s) < r \<Longrightarrow> store (startWatching s) r = None"
  by (simp add: startWatching_def Let_def allocate_def stopWatching_frame stopWatching_store_None
      split: option.split)

lemma consistent_startWatching:
  assumes "consistent s" shows "consistent (startWatching s)"
  using session_startWatching[OF assms] assms
  by (auto simp: consistent_def startWatching_frame startWatching_store_None)

lemma consistent_setCustomActivityEvents:
  assumes "consistent s" shows "consistent (setCustomActivityEvents src s)"
  using assms
proof (cases rule: consistent_cases)
  case never
  with assms show ?thesis
    by (simp add: consistent_def never_started_def setCustomActivityEvents_def idleSub_def live_def)
next
  case (session a pa pi)
  then have "session (setCustomActivityEvents src s) a pa pi"
    by (simp add: session_def pair_ok_def setCustomActivityEvents_def idleSub_def live_def)
  with assms show ?thesis
    by (auto simp: consistent_def setCustomActivityEvents_def)
qed

lemma consistent_onTimeout_subscribe:
  assumes "consistent s" shows "consistent (onTimeout_subscribe k s)"
  using assms
  by (simp add: consistent_def never_started_def session_def pair_ok_def onTimeout_subscribe_def)

lemma consistent_onTimeout_unsubscribe:
  assumes "consistent s" shows "consistent (onTimeout_unsubscribe k s)"
  using assms
  by (simp add: consistent_def never_started_def session_def pair_ok_def onTimeout_unsubscribe_def)

subsection \<open>Events and time on a session\<close>

lemma fold_upt_fixed: "(\<And>r. r < n \<Longrightarrow> f r s = s) \<Longrightarrow> fold f [0..<n] s = s"
  by (induction n) simp_all

lemma fold_upt_session:
  assumes "\<And>r. r < a \<Longrightarrow> f r s = s"
  shows "fold f [0..<Suc (Suc a)] s = f (Suc a) (f a s)"
  using fold_upt_fixed[of a f s, OF assms] by simp

lemma deliver_dead: "dead (store s r) \<Longrightarrow> deliver src e r s = s"
  by (cases "store s r") (simp_all add: dead_def deliver_def)

lemma fire_dead: "dead (store s r) \<Longrightarrow> fire r s = s"
  by (cases "store s r") (simp_all add: dead_def fire_def)

lemma inner_None_upd: "innerSubscription p = None \<Longrightarrow> p\<lparr>innerSubscription := None\<rparr> = p"
  by (cases p) simp

lemma activityEvent_session:
  assumes "session s a pa pi"
  shows "activityEvent src e s = deliver src e (Suc a) (deliver src e a s)"
  using assms unfolding activityEvent_def session_def
  by (simp only: fold_upt_session deliver_dead)

lemma runDueTimers_session:
  assumes "session s a pa pi"
  shows "runDueTimers (s\<lparr>clock := t\<rparr>) = fire (Suc a) (fire a (s\<lparr>clock := t\<rparr>))"
proof -
  have "fire r (s\<lparr>clock := t\<rparr>) = s\<lparr>clock := t\<rparr>" if "r < a" for r
    using assms that by (intro fire_dead) (simp add: session_def)
  moreover have "nextRef (s\<lparr>clock := t\<rparr>) = Suc (Suc a)"
    using assms by (simp add: session_def)
  ultimately show ?thesis
    unfolding runDueTimers_def by (simp only: fold_upt_session)
qed

lemma activityEvent_never: "never_started s \<Longrightarrow> activityEvent src e s = s"
  by (simp add: never_started_def activityEvent_def)

lemma runDueTimers_never: "never_started s \<Longrightarrow> runDueTimers (s\<lparr>clock := t\<rparr>) = s\<lparr>clock := t\<rparr>"
  by (simp add: never_started_def runDueTimers_def)

lemma activityEvent_closed:
  assumes "session s a pa pi" "closed pi"
  shows "activityEvent src e s = s"
  using assms unfolding activityEvent_session[OF assms(1)]
  by (simp add: session_def pair_ok_def deliver_def)

lemma activityEvent_other:
  assumes "session s a pa pi" "\<not> closed pi" "activityEvents s \<noteq> Some src"
  shows "activityEvent src e s = s"
  using assms unfolding activityEvent_session[OF assms(1)]
  by (cases "innerSubscription pi") (simp_all add: session_def pair_ok_def deliver_def fun_upd_idem)

lemma activityEvent_open:
  assumes "session s a pa pi" "\<not> closed pi" "activityEvents s = Some src"
  shows "activityEvent src e s =
     s\<lparr>store := (store s)(a \<mapsto> pa\<lparr>buffer := buffer pa @ [e]\<rparr>,
                           Suc a \<mapsto> pi\<lparr>buffer := buffer pi @ [e], innerSubscription := None\<rparr>),
       isIdleDetected := (if innerSubscription pi = None then isIdleDetected s else Some False),
       outputs := outputs s @ (if innerSubscription pi = None then [] else [IdleStatusChanged False])\<rparr>"
  using assms unfolding activityEvent_session[OF assms(1)]
  by (cases "innerSubscription pi")
     (simp_all add: session_def pair_ok_def deliver_def setIdleness_def inner_None_upd)

lemma consistent_activityEvent:
  assumes "consistent s" shows "consistent (activityEvent src e s)"
  using assms
proof (cases rule: consistent_cases)
  case never
  with assms show ?thesis by (simp add: activityEvent_never)
next
  case (session a pa pi)
  show ?thesis
  proof (cases "\<not> closed pi \<and> activityEvents s = Some src")
    case False
    with session have "activityEvent src e s = s"
      using activityEvent_closed activityEvent_other by blast
    with assms show ?thesis by simp
  next
    case True
    then have o: "\<not> closed pi" and src: "activityEvents s = Some src" by simp_all
    have "session (activityEvent src e s) a (pa\<lparr>buffer := buffer pa @ [e]\<rparr>)
            (pi\<lparr>buffer := buffer pi @ [e], innerSubscription := None\<rparr>)"
      using session o src unfolding activityEvent_open[OF session o src]
      by (simp add: session_def pair_ok_def)
    moreover have "nextRef (activityEvent src e s) = nextRef s"
      "lastActivity (activityEvent src e s) = lastActivity s"
      "clock (activityEvent src e s) = clock s"
      "\<And>r. nextRef s \<le> r \<Longrightarrow> store (activityEvent src e s) r = store s r"
      using session unfolding activityEvent_open[OF session o src]
      by (simp_all add: session_def)
    ultimately show ?thesis using assms by (auto simp: consistent_def)
  qed
qed

subsection \<open>One millisecond on a session\<close>

lemma session_outputs [simp]: "session (s\<lparr>outputs := x\<rparr>) a pa pi = session s a pa pi"
  by (simp add: session_def pair_ok_def)

lemma fold_onTimeout_closed:
  assumes "session s a pa pi" "closed pi"
  shows "fold (\<lambda>k. onTimeout k True) ks s = s\<lparr>outputs := outputs s @ map (\<lambda>k. OnTimeout k True) ks\<rparr>"
  using assms
proof (induction ks arbitrary: s)
  case Nil
  then show ?case by simp
next
  case (Cons k ks)
  have "onTimeout k True s = s\<lparr>outputs := outputs s @ [OnTimeout k True]\<rparr>"
    using Cons.prems by (simp add: onTimeout_def stopWatching_session_closed)
  moreover have "session (s\<lparr>outputs := outputs s @ [OnTimeout k True]\<rparr>) a pa pi"
    using Cons.prems by simp
  ultimately show ?case using Cons.IH[OF _ Cons.prems(2)] by simp
qed

lemma advance_never: "never_started s \<Longrightarrow> advance s = s\<lparr>clock := clock s + 1\<rparr>"
  by (simp add: advance_def runDueTimers_never)

lemma advance_closed:
  assumes "session s a pa pi" "closed pi"
  shows "advance s = s\<lparr>clock := clock s + 1\<rparr>"
  using assms unfolding advance_def runDueTimers_session[OF assms(1)]
  by (simp add: session_def pair_ok_def fire_def)

lemma advance_quiet:
  assumes "session s a pa pi" "\<not> closed pi" "innerSubscription pi = None"
    and "\<not> flush_due pi \<le> clock s + 1"
  shows "advance s = s\<lparr>clock := clock s + 1\<rparr>"
  using assms unfolding advance_def runDueTimers_session[OF assms(1)]
  by (simp add: session_def pair_ok_def fire_def)

lemma advance_activity:
  assumes "session s a pa pi" "\<not> closed pi" "innerSubscription pi = None"
    and "flush_due pi \<le> clock s + 1" "buffer pi \<noteq> []"
  shows "advance s =
     s\<lparr>clock := clock s + 1, lastActivity := (clock s + 1) div 1000,
       store := (store s)(a \<mapsto> pa\<lparr>buffer := [], flush_due := flush_due pa + period pa\<rparr>,
                           Suc a \<mapsto> pi\<lparr>buffer := [], flush_due := flush_due pi + period pi\<rparr>)\<rparr>"
  using assms unfolding advance_def runDueTimers_session[OF assms(1)]
  by (simp add: session_def pair_ok_def fire_def flush_def nowInSeconds_def)

lemma advance_idle:
  assumes "session s a pa pi" "\<not> closed pi" "innerSubscription pi = None"
    and "flush_due pi \<le> clock s + 1" "buffer pi = []"
  shows "advance s =
     s\<lparr>clock := clock s + 1, isIdleDetected := Some True,
       outputs := outputs s @ [IdleStatusChanged True],
       store := (store s)(a \<mapsto> pa\<lparr>buffer := [], flush_due := flush_due pa + period pa\<rparr>,
                           Suc a \<mapsto> pi\<lparr>buffer := [], flush_due := flush_due pi + period pi,
                                      innerSubscription := Some \<lparr>notifier = activityEvents s,
                                                                 tick_due = clock s + 1 + 1000\<rparr>\<rparr>)\<rparr>"
  using assms unfolding advance_def runDueTimers_session[OF assms(1)]
  by (simp add: session_def pair_ok_def fire_def flush_def nowInSeconds_def switchMap_def
        setIdleness_def runTimer_def)

lemma flushed_simps [simp]:
  "closed (flushed t p) = closed p" "pipeline (flushed t p) = pipeline p"
  "upstream (flushed t p) = upstream p" "period (flushed t p) = period p"
  "innerSubscription (flushed t p) = innerSubscription p"
  "buffer p = [] \<Longrightarrow> buffer (flushed t p) = []"
  by (simp_all add: flushed_def)

lemma advance_wait:
  assumes "session s a pa pi" "\<not> closed pi" "innerSubscription pi = Some c"
    and "tick_due c \<noteq> clock s + 1"
  shows "advance s =
     s\<lparr>clock := clock s + 1,
       store := (store s)(a \<mapsto> flushed (clock s + 1) pa, Suc a \<mapsto> flushed (clock s + 1) pi)\<rparr>"
  using assms unfolding advance_def runDueTimers_session[OF assms(1)]
  by (cases "flush_due pi \<le> clock s + 1")
     (simp_all add: session_def pair_ok_def fire_def flush_def flushed_def fun_upd_idem)

lemma expired_frame [simp]:
  "expired (s\<lparr>store := x\<rparr>) = expired s"
  "expired (s\<lparr>outputs := y\<rparr>) = expired s"
  "expired (s\<lparr>isIdleDetected := z\<rparr>) = expired s"
  by (simp_all add: expired_def nowInSeconds_def split: option.split)

lemma advance_tick_early:
  assumes "session s a pa pi" "\<not> closed pi" "innerSubscription pi = Some c"
    and "tick_due c = clock s + 1"
    and "\<not> expired (s\<lparr>clock := clock s + 1\<rparr>)"
  shows "advance s =
     s\<lparr>clock := clock s + 1,
       store := (store s)(a \<mapsto> flushed (clock s + 1) pa,
                           Suc a \<mapsto> (flushed (clock s + 1) pi)
                              \<lparr>innerSubscription := Some (c\<lparr>tick_due := clock s + 1 + 1000\<rparr>)\<rparr>)\<rparr>"
  using assms unfolding advance_def runDueTimers_session[OF assms(1)]
  by (cases "flush_due pi \<le> clock s + 1")
     (simp_all add: session_def pair_ok_def fire_def flush_def flushed_def fun_upd_idem tick_def)

lemma advance_tick_unobserved:
  assumes "session s a pa pi" "\<not> closed pi" "innerSubscription pi = Some c"
    and "tick_due c = clock s + 1"
    and "expired (s\<lparr>clock := clock s + 1\<rparr>)" "timeoutObservers s = []"
  shows "advance s =
     s\<lparr>clock := clock s + 1,
       outputs := outputs s @ [TimeoutSignal True],
       store := (store s)(a \<mapsto> flushed (clock s + 1) pa,
                           Suc a \<mapsto> (flushed (clock s + 1) pi)
                              \<lparr>innerSubscription := Some (c\<lparr>tick_due := clock s + 1 + 1000\<rparr>)\<rparr>)\<rparr>"
  using assms unfolding advance_def runDueTimers_session[OF assms(1)]
  by (cases "flush_due pi \<le> clock s + 1")
     (simp_all add: session_def pair_ok_def fire_def flush_def flushed_def fun_upd_idem tick_def
        timeout_next_def)

lemma timeout_next_session:
  assumes "session s a pa pi" "\<not> closed pi" "timeoutObservers s \<noteq> []"
  shows "timeout_next True s =
     s\<lparr>store := (store s)(Suc a \<mapsto> pi\<lparr>closed := True, innerSubscription := None\<rparr>,
                           a \<mapsto> pa\<lparr>closed := True, innerSubscription := None\<rparr>),
       isIdleDetected := (if innerSubscription pi = None then isIdleDetected s else Some False),
       outputs := outputs s @ [TimeoutSignal True] @
                  (if innerSubscription pi = None then [] else [IdleStatusChanged False]) @
                  map (\<lambda>k. OnTimeout k True) (timeoutObservers s)\<rparr>"
proof -
  obtain k ks where obs: "timeoutObservers s = k # ks"
    using assms(3) by (cases "timeoutObservers s") auto
  let ?s1 = "s\<lparr>outputs := outputs s @ [TimeoutSignal True]\<rparr>"
  have s1: "session ?s1 a pa pi" using assms(1) by simp
  let ?s2 = "stopWatching ?s1"
  have s2: "session ?s2 a (pa\<lparr>closed := True\<rparr>) (pi\<lparr>closed := True, innerSubscription := None\<rparr>)"
    using s1 by (rule session_stopWatching)
  let ?s3 = "?s2\<lparr>outputs := outputs ?s2 @ [OnTimeout k True]\<rparr>"
  have s3: "session ?s3 a (pa\<lparr>closed := True\<rparr>) (pi\<lparr>closed := True, innerSubscription := None\<rparr>)"
    using s2 by simp
  have "timeout_next True s = fold (\<lambda>k. onTimeout k True) ks ?s3"
    by (simp add: timeout_next_def obs onTimeout_def Let_def)
  also have "\<dots> = ?s3\<lparr>outputs := outputs ?s3 @ map (\<lambda>k. OnTimeout k True) ks\<rparr>"
    using s3 by (rule fold_onTimeout_closed) simp
  finally show ?thesis
    unfolding stopWatching_session_open[OF s1 assms(2)] by (simp add: obs)
qed

lemma advance_timeout:
  assumes "session s a pa pi" "\<not> closed pi" "innerSubscription pi = Some c"
    and "tick_due c = clock s + 1"
    and "expired (s\<lparr>clock := clock s + 1\<rparr>)" "timeoutObservers s \<noteq> []"
  shows "advance s =
     s\<lparr>clock := clock s + 1,
       isIdleDetected := Some False,
       outputs := outputs s @ [TimeoutSignal True, IdleStatusChanged False] @
                  map (\<lambda>k. OnTimeout k True) (timeoutObservers s),
       store := (store s)(Suc a \<mapsto> (flushed (clock s + 1) pi)\<lparr>closed := True, innerSubscription := None\<rparr>,
                           a \<mapsto> (flushed (clock s + 1) pa)\<lparr>closed := True\<rparr>)\<rparr>"
proof -
  let ?c = "c\<lparr>tick_due := clock s + 1 + 1000\<rparr>"
  let ?pa = "flushed (clock s + 1) pa"
  let ?pi = "(flushed (clock s + 1) pi)\<lparr>innerSubscription := Some ?c\<rparr>"
  let ?X = "s\<lparr>clock := clock s + 1, store := (store s)(a \<mapsto> ?pa, Suc a \<mapsto> ?pi)\<rparr>"
  have adv: "advance s = timeout_next True ?X"
    using assms(1-5) unfolding advance_def runDueTimers_session[OF assms(1)]
    by (cases "flush_due pi \<le> clock s + 1")
       (simp_all add: session_def pair_ok_def fire_def flush_def flushed_def fun_upd_idem tick_def)
  have X: "session ?X a ?pa ?pi"
    using assms(1-4) by (simp add: session_def pair_ok_def flushed_def)
  have "\<not> closed ?pi" "timeoutObservers ?X \<noteq> []" using assms by simp_all
  from timeout_next_session[OF X this] assms(1) show ?thesis
    unfolding adv by (simp add: session_def pair_ok_def inner_None_upd)
qed

lemma consistentI:
  "lastActivity s \<le> clock s div 1000 \<Longrightarrow> (\<forall>r. nextRef s \<le> r \<longrightarrow> store s r = None) \<Longrightarrow>
   session s a pa pi \<Longrightarrow> consistent s"
  by (auto simp: consistent_def)

lemma consistent_advance:
  assumes "consistent s" shows "consistent (advance s)"
proof -
  have L: "lastActivity s \<le> (clock s + 1) div 1000"
  proof -
    have "clock s div 1000 \<le> (clock s + 1) div 1000" by (simp add: zdiv_mono1)
    with assms show ?thesis by (simp add: consistent_def)
  qed
  from assms have N: "\<forall>r. nextRef s \<le> r \<longrightarrow> store s r = None" by (simp add: consistent_def)
  from assms show ?thesis
  proof (cases rule: consistent_cases)
    case never
    then show ?thesis using L N
      by (simp add: advance_never consistent_def never_started_def)
  next
    case (session a pa pi)
    note S = session
    then have n: "nextRef s = Suc (Suc a)" by (simp add: session_def)
    show ?thesis
    proof (cases "closed pi")
      case True
      show ?thesis unfolding advance_closed[OF S True]
        using L N S by (intro consistentI[where a=a and pa=pa and pi=pi]) (simp_all add: session_def pair_ok_def True)
    next
      case False
      note O = False
      show ?thesis
      proof (cases "innerSubscription pi")
        case None
        note I = None
        show ?thesis
        proof (cases "flush_due pi \<le> clock s + 1")
          case False
          show ?thesis unfolding advance_quiet[OF S O I False]
            using L N S O I
            by (intro consistentI[where a=a and pa=pa and pi=pi]) (simp_all add: session_def pair_ok_def)
        next
          case True
          note F = True
          show ?thesis
          proof (cases "buffer pi = []")
            case False
            show ?thesis unfolding advance_activity[OF S O I F False]
              using N S O I n
              by (intro consistentI[where a=a and pa="pa\<lparr>buffer := [], flush_due := flush_due pa + period pa\<rparr>"
                    and pi="pi\<lparr>buffer := [], flush_due := flush_due pi + period pi\<rparr>"])
                 (simp_all add: session_def pair_ok_def)
          next
            case True
            show ?thesis unfolding advance_idle[OF S O I F True]
              using L N S O I n
              by (intro consistentI[where a=a and pa="pa\<lparr>buffer := [], flush_due := flush_due pa + period pa\<rparr>"
                    and pi="pi\<lparr>buffer := [], flush_due := flush_due pi + period pi,
                                      innerSubscription := Some \<lparr>notifier = activityEvents s,
                                                                 tick_due = clock s + 1 + 1000\<rparr>\<rparr>"])
                 (simp_all add: session_def pair_ok_def)
          qed
        qed
      next
        case (Some c)
        note I = Some
        show ?thesis
        proof (cases "tick_due c = clock s + 1")
          case False
          show ?thesis unfolding advance_wait[OF S O I False]
            using L N S O I n False
            by (intro consistentI[where a=a and pa="flushed (clock s + 1) pa"
                    and pi="flushed (clock s + 1) pi"])
               (simp_all add: session_def pair_ok_def flushed_def)
        next
          case True
          note T = True
          show ?thesis
          proof (cases "expired (s\<lparr>clock := clock s + 1\<rparr>)")
            case False
            show ?thesis unfolding advance_tick_early[OF S O I T False]
              using L N S O I n
              by (intro consistentI[where a=a and pa="flushed (clock s + 1) pa"
                    and pi="(flushed (clock s + 1) pi)\<lparr>innerSubscription := Some (c\<lparr>tick_due := clock s + 1 + 1000\<rparr>)\<rparr>"])
                 (simp_all add: session_def pair_ok_def flushed_def)
          next
            case True
            note E = True
            show ?thesis
            proof (cases "timeoutObservers s = []")
              case True
              show ?thesis unfolding advance_tick_unobserved[OF S O I T E True]
                using L N S O I n
                by (intro consistentI[where a=a and pa="flushed (clock s + 1) pa"
                      and pi="(flushed (clock s + 1) pi)\<lparr>innerSubscription := Some (c\<lparr>tick_due := clock s + 1 + 1000\<rparr>)\<rparr>"])
                   (simp_all add: session_def pair_ok_def flushed_def)
            next
              case False
              show ?thesis unfolding advance_timeout[OF S O I T E False]
                using L N S O I n
                by (intro consistentI[where a=a and pa="(flushed (clock s + 1) pa)\<lparr>closed := True\<rparr>"
                      and pi="(flushed (clock s + 1) pi)\<lparr>closed := True, innerSubscription := None\<rparr>"])
                   (simp_all add: session_def pair_ok_def flushed_def)
            qed
          qed
        qed
      qed
    qed
  qed
qed

lemma consistent_elapse: "consistent s \<Longrightarrow> consistent (elapse n s)"
  by (induction n arbitrary: s) (simp_all add: consistent_advance)

lemma consistent_step: "consistent s \<Longrightarrow> consistent (step a s)"
  by (cases a)
     (simp_all add: consistent_startWatching consistent_stopWatching
        consistent_setCustomActivityEvents consistent_onTimeout_subscribe
        consistent_onTimeout_unsubscribe consistent_activityEvent consistent_elapse)

lemma reachable_consistent: "reachable s \<Longrightarrow> consistent s"
  by (induction rule: reachable.induct) (simp_all add: consistent_constructor consistent_step)

section \<open>The claims\<close>

subsection \<open>The configuration never changes\<close>

lemma fold_preserves:
  "(\<And>x s. g (f x s) = g s) \<Longrightarrow> g (fold f xs s) = g s"
  by (induction xs arbitrary: s) simp_all

lemma config_unsubscribe [simp]: "config (unsubscribe r s) = config s"
  by (simp add: unsubscribe_def setIdleness_def Let_def split: option.split)

lemma config_stopWatching [simp]: "config (stopWatching s) = config s"
  by (simp add: stopWatching_frame)

lemma config_timeout_next [simp]: "config (timeout_next v s) = config s"
proof -
  have "config (fold (\<lambda>k. onTimeout k v) ks s') = config s'" for ks s'
    by (rule fold_preserves) (simp add: onTimeout_def Let_def)
  then show ?thesis by (simp add: timeout_next_def)
qed

lemma config_flush [simp]: "config (flush r s) = config s"
  by (simp add: flush_def switchMap_def setIdleness_def Let_def
      split: option.split pipeline.split)

lemma config_tick [simp]: "config (tick r s) = config s"
  by (simp add: tick_def Let_def split: option.split)

lemma config_fire [simp]: "config (fire r s) = config s"
  by (simp add: fire_def Let_def split: option.split)

lemma config_advance [simp]: "config (advance s) = config s"
proof -
  have "config (fold fire rs s') = config s'" for rs s'
    by (rule fold_preserves) simp
  then show ?thesis by (simp add: advance_def runDueTimers_def)
qed

lemma config_elapse [simp]: "config (elapse n s) = config s"
  by (induction n arbitrary: s) simp_all

lemma config_activityEvent [simp]: "config (activityEvent src e s) = config s"
proof -
  have "config (fold (deliver src e) rs s') = config s'" for rs s'
    by (rule fold_preserves) (simp add: deliver_def setIdleness_def Let_def split: option.split)
  then show ?thesis by (simp add: activityEvent_def)
qed

lemma config_step [simp]: "config (step a s) = config s"
  by (cases a)
     (simp_all add: startWatching_frame setCustomActivityEvents_def
        onTimeout_subscribe_def onTimeout_unsubscribe_def)

lemma config_run [simp]: "config (run as s) = config s"
  unfolding run_def by (rule fold_preserves) simp

text \<open>
  C8: \<open>getConfig()\<close> returns, at any later moment, the defaults (timeout 300
  seconds, sensitivity 1500 milliseconds) overridden by the fields the caller's
  configuration object has; a field the caller omits, and every field when no
  object is injected, keeps its default.
\<close>

theorem getConfig_defaults_merged:
  "getConfig (run as (constructor cfg now)) =
     \<lparr>timeout =
        (case cfg of
           None \<Rightarrow> Some 300
         | Some c \<Rightarrow> (case timeout c of None \<Rightarrow> Some 300 | Some v \<Rightarrow> Some v)),
      sensitivityMilliseconds =
        (case cfg of
           None \<Rightarrow> Some 1500
         | Some c \<Rightarrow> (case sensitivityMilliseconds c of None \<Rightarrow> Some 1500 | Some v \<Rightarrow> Some v))\<rparr>"
  by (simp add: getConfig_def constructor_def spread_def DEFAULT_CONFIG_def split: option.split)

lemma session_subs:
  "session s a pa pi \<Longrightarrow> idleSub s = Some pi \<and> activitySub s = Some pa"
  by (simp add: session_def idleSub_def activitySub_def)

lemma never_subs: "never_started s \<Longrightarrow> idleSub s = None \<and> activitySub s = None"
  by (simp add: never_started_def idleSub_def activitySub_def)

lemma example_started_eq:
  "example_started =
     \<lparr>config = \<lparr>timeout = Some 1, sensitivityMilliseconds = Some 1\<rparr>,
      activityEvents = Some DEFAULT_ACTIVITY_EVENTS, lastActivity = 0, isIdleDetected = None,
      idleSubscription = Some 1, activitySubscription = Some 0,
      store = (\<lambda>_. None)
        (0 \<mapsto> \<lparr>closed = False, pipeline = ActivityPipeline,
                upstream = Some DEFAULT_ACTIVITY_EVENTS, buffer = [], period = 1,
                flush_due = 1000, innerSubscription = None\<rparr>,
         1 \<mapsto> \<lparr>closed = False, pipeline = IdlePipeline,
                upstream = Some DEFAULT_ACTIVITY_EVENTS, buffer = [], period = 1,
                flush_due = 1000, innerSubscription = None\<rparr>),
      nextRef = 2, timeoutObservers = [], clock = 999, outputs = []\<rparr>"
  by (simp add: example_started_def example_config_def startWatching_def constructor_def
        stopWatching_def spread_def DEFAULT_CONFIG_def allocate_def newSubscription_def Let_def
        numeral_2_eq_2)

lemma example_idle_eq:
  "example_idle =
     \<lparr>config = \<lparr>timeout = Some 1, sensitivityMilliseconds = Some 1\<rparr>,
      activityEvents = Some DEFAULT_ACTIVITY_EVENTS, lastActivity = 0,
      isIdleDetected = Some True,
      idleSubscription = Some 1, activitySubscription = Some 0,
      store = (\<lambda>_. None)
        (0 \<mapsto> \<lparr>closed = False, pipeline = ActivityPipeline,
                upstream = Some DEFAULT_ACTIVITY_EVENTS, buffer = [], period = 1,
                flush_due = 1001, innerSubscription = None\<rparr>,
         1 \<mapsto> \<lparr>closed = False, pipeline = IdlePipeline,
                upstream = Some DEFAULT_ACTIVITY_EVENTS, buffer = [], period = 1,
                flush_due = 1001,
                innerSubscription = Some \<lparr>notifier = Some DEFAULT_ACTIVITY_EVENTS, tick_due = 2000\<rparr>\<rparr>),
      nextRef = 2, timeoutObservers = [], clock = 1000, outputs = [IdleStatusChanged True]\<rparr>"
  unfolding example_idle_def example_started_eq
  by (simp add: advance_def runDueTimers_def fire_def flush_def switchMap_def setIdleness_def
        runTimer_def nowInSeconds_def Let_def numeral_2_eq_2)

lemma reachable_example_started: "reachable example_started"
  unfolding example_started_def
  using reachable_step[OF reachable_constructor, of StartWatching] by simp

lemma reachable_example_idle: "reachable example_idle"
  unfolding example_idle_def
  using reachable_step[OF reachable_example_started, of "Elapse 1"] by simp

subsection \<open>What a call adds to the outputs\<close>

lemma outputs_unsubscribe:
  "\<exists>xs. outputs (unsubscribe r s) = outputs s @ xs \<and> set xs \<subseteq> {IdleStatusChanged False}"
  by (simp add: unsubscribe_def setIdleness_def Let_def split: option.split)

lemma outputs_stopWatching:
  "\<exists>xs. outputs (stopWatching s) = outputs s @ xs \<and> set xs \<subseteq> {IdleStatusChanged False}"
proof -
  let ?s1 = "case idleSubscription s of None \<Rightarrow> s | Some r \<Rightarrow> unsubscribe r s"
  have "\<exists>xs. outputs ?s1 = outputs s @ xs \<and> set xs \<subseteq> {IdleStatusChanged False}"
    by (cases "idleSubscription s") (simp_all add: outputs_unsubscribe)
  then obtain xs where xs: "outputs ?s1 = outputs s @ xs" "set xs \<subseteq> {IdleStatusChanged False}"
    by blast
  have "\<exists>ys. outputs (stopWatching s) = outputs ?s1 @ ys \<and> set ys \<subseteq> {IdleStatusChanged False}"
    unfolding stopWatching_def Let_def
    by (cases "activitySubscription ?s1") (simp_all add: outputs_unsubscribe)
  then obtain ys where ys: "outputs (stopWatching s) = outputs ?s1 @ ys" "set ys \<subseteq> {IdleStatusChanged False}"
    by blast
  from xs ys have "outputs (stopWatching s) = outputs s @ (xs @ ys)"
    "set (xs @ ys) \<subseteq> {IdleStatusChanged False}" by auto
  then show ?thesis by blast
qed

lemma outputs_fold_onTimeout:
  "\<exists>xs. outputs (fold (\<lambda>k. onTimeout k True) ks s) = outputs s @ xs"
proof (induction ks arbitrary: s)
  case Nil
  show ?case by simp
next
  case (Cons k ks)
  obtain xs where "outputs (onTimeout k True s) = outputs s @ xs"
    using outputs_stopWatching[of s] by (auto simp: onTimeout_def Let_def)
  moreover obtain ys where "outputs (fold (\<lambda>k. onTimeout k True) ks (onTimeout k True s)) =
      outputs (onTimeout k True s) @ ys"
    using Cons.IH by blast
  ultimately show ?case by simp
qed

lemma outputs_timeout_next:
  "\<exists>xs. outputs (timeout_next True s) = outputs s @ TimeoutSignal True # xs"
  using outputs_fold_onTimeout[of "timeoutObservers s" "s\<lparr>outputs := outputs s @ [TimeoutSignal True]\<rparr>"]
  by (auto simp: timeout_next_def)

lemma tick_live:
  assumes "store s r = Some p" "\<not> closed p" "innerSubscription p = Some c"
  shows "tick r s =
     (let s1 = s\<lparr>store := (store s)
                (r \<mapsto> p\<lparr>innerSubscription := Some (c\<lparr>tick_due := tick_due c + 1000\<rparr>)\<rparr>)\<rparr>
      in if expired s then timeout_next True s1 else s1)"
  using assms by (simp add: tick_def Let_def)

text \<open>
  C9: at a tick of a live countdown the signal \<open>true\<close> goes out on
  \<open>timeout$\<close> exactly when \<open>lastActivity + timeout < nowInSeconds()\<close>,
  a strict comparison of whole seconds (\<open>nowInSeconds()\<close> is the floor of the
  clock over 1000); a tick in the second \<open>lastActivity + timeout\<close> itself
  sends nothing at all.
\<close>

theorem tick_signal_iff_strictly_later:
  assumes "store s r = Some p" and "\<not> closed p" and "innerSubscription p = Some c"
    and "timeout (config s) = Some t"
  shows "((\<exists>xs. outputs (tick r s) = outputs s @ TimeoutSignal True # xs) \<longleftrightarrow>
            lastActivity s + t < nowInSeconds s) \<and>
         (nowInSeconds s = lastActivity s + t \<longrightarrow> outputs (tick r s) = outputs s) \<and>
         nowInSeconds s * 1000 \<le> clock s \<and> clock s < (nowInSeconds s + 1) * 1000"
proof -
  have e: "expired s \<longleftrightarrow> lastActivity s + t < nowInSeconds s"
    using assms(4) by (simp add: expired_def)
  have floor: "nowInSeconds s * 1000 \<le> clock s \<and> clock s < (nowInSeconds s + 1) * 1000"
    by (simp add: nowInSeconds_def) linarith
  show ?thesis
  proof (cases "expired s")
    case True
    then have "tick r s = timeout_next True (s\<lparr>store := (store s)
                (r \<mapsto> p\<lparr>innerSubscription := Some (c\<lparr>tick_due := tick_due c + 1000\<rparr>)\<rparr>)\<rparr>)"
      using assms(1-3) by (simp add: tick_live)
    then obtain xs where "outputs (tick r s) = outputs s @ TimeoutSignal True # xs"
      using outputs_timeout_next[of "s\<lparr>store := (store s)
                (r \<mapsto> p\<lparr>innerSubscription := Some (c\<lparr>tick_due := tick_due c + 1000\<rparr>)\<rparr>)\<rparr>"]
      by auto
    with True e floor show ?thesis by auto
  next
    case False
    then have "outputs (tick r s) = outputs s"
      using assms(1-3) by (simp add: tick_live)
    with False e floor show ?thesis by auto
  qed
qed

theorem tick_signal_iff_strictly_later_witness:
  "store example_idle 1 =
     Some \<lparr>closed = False, pipeline = IdlePipeline,
           upstream = Some DEFAULT_ACTIVITY_EVENTS, buffer = [], period = 1, flush_due = 1001,
           innerSubscription = Some \<lparr>notifier = Some DEFAULT_ACTIVITY_EVENTS, tick_due = 2000\<rparr>\<rparr> \<and>
   timeout (config example_idle) = Some 1 \<and>
   nowInSeconds example_idle = lastActivity example_idle + 1 \<and>
   outputs (tick 1 example_idle) = outputs example_idle"
proof -
  let ?c = "\<lparr>notifier = Some DEFAULT_ACTIVITY_EVENTS, tick_due = 2000\<rparr>"
  let ?p = "\<lparr>closed = False, pipeline = IdlePipeline,
           upstream = Some DEFAULT_ACTIVITY_EVENTS, buffer = [], period = 1, flush_due = 1001,
           innerSubscription = Some ?c\<rparr>"
  have 1: "store example_idle 1 = Some ?p" by (simp add: example_idle_eq)
  have 2: "\<not> closed ?p" by simp
  have 3: "innerSubscription ?p = Some ?c" by simp
  have 4: "timeout (config example_idle) = Some 1" by (simp add: example_idle_eq)
  have 5: "nowInSeconds example_idle = lastActivity example_idle + 1"
    by (simp add: example_idle_eq nowInSeconds_def)
  from tick_signal_iff_strictly_later[OF 1 2 3 4] 1 4 5 show ?thesis by simp
qed

lemma startWatching_upstream:
  assumes "activityEvents s = Some src"
  shows "map_option upstream (activitySub (startWatching s)) = Some (Some src) \<and>
         map_option upstream (idleSub (startWatching s)) = Some (Some src) \<and>
         notifier (runTimer (startWatching s)) = Some src"
  using assms
  by (simp add: startWatching_def Let_def allocate_def newSubscription_def stopWatching_frame
        activitySub_def idleSub_def runTimer_def)

text \<open>
  C3: while the idle subscription exists and is not closed,
  \<open>setCustomActivityEvents\<close> only logs an error and changes nothing else; in
  any other state it replaces the activity feed and nothing else, and the
  next \<open>startWatching()\<close> then subscribes both pipelines to the new feed, which
  is also the notifier that cancels the countdown.
\<close>

theorem setCustomActivityEvents_guarded:
  "(live (idleSub s) \<longrightarrow>
      setCustomActivityEvents src s =
        s\<lparr>outputs := outputs s @
            [ConsoleError ''Call stopWatching() before set custom activity events'']\<rparr>) \<and>
   (\<not> live (idleSub s) \<longrightarrow>
      setCustomActivityEvents src s = s\<lparr>activityEvents := Some src\<rparr> \<and>
      map_option upstream (activitySub (startWatching (setCustomActivityEvents src s))) =
        Some (Some src) \<and>
      map_option upstream (idleSub (startWatching (setCustomActivityEvents src s))) =
        Some (Some src) \<and>
      notifier (runTimer (startWatching (setCustomActivityEvents src s))) = Some src)"
proof (cases "live (idleSub s)")
  case True
  then show ?thesis by (simp add: setCustomActivityEvents_def)
next
  case False
  then have e: "setCustomActivityEvents src s = s\<lparr>activityEvents := Some src\<rparr>"
    by (simp add: setCustomActivityEvents_def)
  have "activityEvents (s\<lparr>activityEvents := Some src\<rparr>) = Some src" by simp
  from startWatching_upstream[OF this] False e show ?thesis by simp
qed

theorem setCustomActivityEvents_guarded_witness:
  "live (idleSub example_started) \<and>
   setCustomActivityEvents (CustomEvents 1) example_started =
     example_started\<lparr>outputs := outputs example_started @
        [ConsoleError ''Call stopWatching() before set custom activity events'']\<rparr> \<and>
   \<not> live (idleSub (stopWatching example_started)) \<and>
   activityEvents (setCustomActivityEvents (CustomEvents 1) (stopWatching example_started)) =
     Some (CustomEvents 1) \<and>
   map_option upstream (idleSub (startWatching
       (setCustomActivityEvents (CustomEvents 1) (stopWatching example_started)))) =
     Some (Some (CustomEvents 1))"
proof -
  have 1: "live (idleSub example_started)"
    by (simp add: example_started_eq idleSub_def live_def)
  have 2: "\<not> live (idleSub (stopWatching example_started))"
    by (simp add: example_started_eq stopWatching_def unsubscribe_def idleSub_def live_def)
  have 3: "setCustomActivityEvents (CustomEvents 1) example_started =
     example_started\<lparr>outputs := outputs example_started @
        [ConsoleError ''Call stopWatching() before set custom activity events'']\<rparr>"
    using setCustomActivityEvents_guarded[of example_started "CustomEvents 1"] 1 by blast
  have 4: "setCustomActivityEvents (CustomEvents 1) (stopWatching example_started) =
      (stopWatching example_started)\<lparr>activityEvents := Some (CustomEvents 1)\<rparr>"
    and 5: "map_option upstream (idleSub (startWatching
       (setCustomActivityEvents (CustomEvents 1) (stopWatching example_started)))) =
     Some (Some (CustomEvents 1))"
    using setCustomActivityEvents_guarded[of "stopWatching example_started" "CustomEvents 1"] 2
    by blast+
  have 6: "activityEvents (setCustomActivityEvents (CustomEvents 1) (stopWatching example_started)) =
     Some (CustomEvents 1)"
    unfolding 4 by simp
  from 1 2 3 5 6 show ?thesis by blast
qed

subsection \<open>stopWatching\<close>

lemma session_runningCountdown:
  "session s a pa pi \<Longrightarrow> runningCountdown s = innerSubscription pi"
  by (auto simp: session_def pair_ok_def runningCountdown_def idleSub_def)

lemma never_runningCountdown: "never_started s \<Longrightarrow> runningCountdown s = None"
  by (simp add: never_started_def runningCountdown_def idleSub_def)

text \<open>
  C2, as the code has it: \<open>stopWatching()\<close> leaves both subscriptions closed,
  changes nothing when neither is live, and never changes \<open>lastActivity\<close>.
  The idle flag stays as it is when no countdown is running; when one is
  running, tearing it down runs its \<open>finalize\<close>, which sets the flag to
  \<open>false\<close> and sends \<open>false\<close> on \<open>idleDetected$\<close>.
\<close>

theorem stopWatching_effect:
  assumes "reachable s"
  shows "\<not> live (idleSub (stopWatching s)) \<and> \<not> live (activitySub (stopWatching s)) \<and>
         lastActivity (stopWatching s) = lastActivity s \<and>
         (\<not> live (idleSub s) \<and> \<not> live (activitySub s) \<longrightarrow> stopWatching s = s) \<and>
         (runningCountdown s = None \<longrightarrow>
            isIdleDetected (stopWatching s) = isIdleDetected s \<and>
            outputs (stopWatching s) = outputs s) \<and>
         (runningCountdown s \<noteq> None \<longrightarrow>
            isIdleDetected (stopWatching s) = Some False \<and>
            outputs (stopWatching s) = outputs s @ [IdleStatusChanged False])"
proof -
  from assms have "consistent s" by (rule reachable_consistent)
  then show ?thesis
  proof (cases rule: consistent_cases)
    case never
    then show ?thesis
      using never_subs[OF never] never_runningCountdown[OF never]
      by (simp add: stopWatching_never live_def)
  next
    case (session a pa pi)
    note S = session
    have subs': "idleSub (stopWatching s) = Some (pi\<lparr>closed := True, innerSubscription := None\<rparr>)"
      "activitySub (stopWatching s) = Some (pa\<lparr>closed := True\<rparr>)"
      using session_subs[OF session_stopWatching[OF S]] by simp_all
    show ?thesis
    proof (cases "closed pi")
      case True
      then have "stopWatching s = s" using S by (simp add: stopWatching_session_closed)
      moreover have "runningCountdown s = None"
        using session_runningCountdown[OF S] S True by (simp add: session_def pair_ok_def)
      ultimately show ?thesis using subs' by (simp add: live_def)
    next
      case False
      have "live (idleSub s)" using session_subs[OF S] False by (simp add: live_def)
      then show ?thesis
        using subs' session_runningCountdown[OF S]
        unfolding stopWatching_session_open[OF S False]
        by (auto simp: live_def)
    qed
  qed
qed

theorem stopWatching_effect_witness:
  "reachable example_idle \<and> runningCountdown example_idle \<noteq> None \<and>
   \<not> live (idleSub (stopWatching example_idle)) \<and>
   isIdleDetected (stopWatching example_idle) = Some False \<and>
   outputs (stopWatching example_idle) = outputs example_idle @ [IdleStatusChanged False]"
proof -
  have "runningCountdown example_idle \<noteq> None"
    by (simp add: example_idle_eq runningCountdown_def idleSub_def)
  with stopWatching_effect[OF reachable_example_idle] reachable_example_idle
  show ?thesis by simp
qed

text \<open>
  The claim as the specification states it fails: one millisecond after
  \<open>startWatching()\<close> with a sensitivity of one millisecond the flag is up, and
  \<open>stopWatching()\<close> takes it down.
\<close>

theorem stopWatching_resets_idle_flag:
  "reachable example_idle \<and> isIdleDetected example_idle = Some True \<and>
   isIdleDetected (stopWatching example_idle) \<noteq> isIdleDetected example_idle"
  using reachable_example_idle
  by (simp add: example_idle_eq stopWatching_def unsubscribe_def setIdleness_def)

subsection \<open>The idle pipeline\<close>

lemma session_idle_ref:
  assumes "session s a pa pi" "idleSubscription s = Some r" "idleSub s = Some p"
  shows "r = Suc a \<and> p = pi"
  using assms by (simp add: session_def idleSub_def)

text \<open>
  C4: in a watching session, a window of the idle pipeline with no event in
  it, while the idle flag is not up, raises the flag, sends \<open>true\<close> on
  \<open>idleDetected$\<close> and starts the countdown, whose first tick is one second
  later; with the flag already up the same window sends nothing and leaves
  the running countdown as it is.
\<close>

theorem empty_window_starts_countdown:
  assumes "reachable s" and "idleSubscription s = Some r" and "idleSub s = Some p"
    and "\<not> closed p" and "buffer p = []"
  shows "(isIdleDetected s \<noteq> Some True \<longrightarrow>
            isIdleDetected (flush r s) = Some True \<and>
            outputs (flush r s) = outputs s @ [IdleStatusChanged True] \<and>
            runningCountdown (flush r s) =
              Some \<lparr>notifier = activityEvents s, tick_due = clock s + 1000\<rparr>) \<and>
         (isIdleDetected s = Some True \<longrightarrow>
            isIdleDetected (flush r s) = Some True \<and>
            outputs (flush r s) = outputs s \<and>
            runningCountdown (flush r s) = runningCountdown s)"
proof -
  from assms(1) have "consistent s" by (rule reachable_consistent)
  then show ?thesis
  proof (cases rule: consistent_cases)
    case never
    with assms(2) show ?thesis by (simp add: never_started_def)
  next
    case (session a pa pi)
    from session_idle_ref[OF session assms(2,3)] have r: "r = Suc a" and p: "p = pi"
      by simp_all
    show ?thesis
    proof (cases "isIdleDetected s = Some True")
      case True
      then show ?thesis
        using session assms(4,5) unfolding r p
        by (simp add: session_def pair_ok_def flush_def runningCountdown_def idleSub_def)
    next
      case False
      then have "innerSubscription pi = None"
        using session by (simp add: session_def pair_ok_def)
      then show ?thesis
        using False session assms(4,5) unfolding r p
        by (simp add: session_def pair_ok_def flush_def switchMap_def setIdleness_def
              runTimer_def runningCountdown_def idleSub_def)
    qed
  qed
qed

theorem empty_window_starts_countdown_witness:
  "reachable example_started \<and> idleSubscription example_started = Some 1 \<and>
   isIdleDetected example_started \<noteq> Some True \<and>
   isIdleDetected (flush 1 example_started) = Some True \<and>
   outputs (flush 1 example_started) = outputs example_started @ [IdleStatusChanged True] \<and>
   runningCountdown (flush 1 example_started) =
     Some \<lparr>notifier = Some DEFAULT_ACTIVITY_EVENTS, tick_due = 1999\<rparr>"
proof -
  let ?p = "\<lparr>closed = False, pipeline = IdlePipeline,
                upstream = Some DEFAULT_ACTIVITY_EVENTS, buffer = [], period = 1,
                flush_due = 1000, innerSubscription = None\<rparr>"
  have 2: "idleSubscription example_started = Some 1" by (simp add: example_started_eq)
  have 3: "idleSub example_started = Some ?p" by (simp add: example_started_eq idleSub_def)
  have 4: "\<not> closed ?p" and 5: "buffer ?p = []" by simp_all
  have 6: "isIdleDetected example_started \<noteq> Some True" by (simp add: example_started_eq)
  have 7: "activityEvents example_started = Some DEFAULT_ACTIVITY_EVENTS"
    "clock example_started + 1000 = 1999" by (simp_all add: example_started_eq)
  from empty_window_starts_countdown[OF reachable_example_started 2 3 4 5] 6 7
    reachable_example_started 2
  show ?thesis by simp
qed

subsection \<open>Raw events against the countdown\<close>

lemma runningCountdown_session:
  assumes "session s a pa pi" "runningCountdown s = Some c"
  shows "\<not> closed pi \<and> innerSubscription pi = Some c"
  using assms by (auto simp: session_def runningCountdown_def idleSub_def split: if_splits)

subsection \<open>Counting what is live\<close>

lemma filter_upt_none: "(\<And>r. r < n \<Longrightarrow> \<not> P r) \<Longrightarrow> filter P [0..<n] = []"
  by (induction n) simp_all

lemma concat_upt_none: "(\<And>r. r < n \<Longrightarrow> f r = []) \<Longrightarrow> concat (map f [0..<n]) = []"
  by (induction n) simp_all

lemma countdowns_never: "never_started s \<Longrightarrow> countdowns s = []"
  by (simp add: never_started_def countdowns_def)

lemma countdowns_session:
  assumes "session s a pa pi"
  shows "countdowns s = (if innerSubscription pi = None then [] else [Suc a])"
proof -
  let ?P = "\<lambda>r. case store s r of None \<Rightarrow> False | Some p \<Rightarrow> innerSubscription p \<noteq> None"
  have "\<not> ?P r" if "r < a" for r
    using assms that by (auto simp: session_def dead_def split: option.splits)
  then have "filter ?P [0..<a] = []" by (rule filter_upt_none)
  moreover have "\<not> ?P a" using assms by (simp add: session_def pair_ok_def)
  moreover have "?P (Suc a) \<longleftrightarrow> innerSubscription pi \<noteq> None"
    using assms by (simp add: session_def)
  moreover have "nextRef s = Suc (Suc a)" using assms by (simp add: session_def)
  ultimately show ?thesis by (simp add: countdowns_def)
qed

lemma liveSubscriptions_session:
  assumes "session s a pa pi"
  shows "liveSubscriptions s = (if closed pi then [] else [pa, pi])"
proof -
  let ?f = "\<lambda>r. case store s r of None \<Rightarrow> [] | Some p \<Rightarrow> if closed p then [] else [p]"
  have "?f r = []" if "r < a" for r
    using assms that by (auto simp: session_def dead_def split: option.splits)
  then have "concat (map ?f [0..<a]) = []" by (rule concat_upt_none)
  moreover have "?f a = (if closed pi then [] else [pa])" "?f (Suc a) = (if closed pi then [] else [pi])"
    using assms by (simp_all add: session_def pair_ok_def)
  moreover have "nextRef s = Suc (Suc a)" using assms by (simp add: session_def)
  ultimately show ?thesis by (simp add: liveSubscriptions_def)
qed

lemma countdowns_switchMap:
  assumes "session s a pa pi"
  shows "countdowns (switchMap (Suc a) s) = [Suc a]"
proof -
  let ?s = "switchMap (Suc a) s"
  let ?P = "\<lambda>r. case store ?s r of None \<Rightarrow> False | Some p \<Rightarrow> innerSubscription p \<noteq> None"
  have st: "store ?s = (store s)(Suc a \<mapsto> pi\<lparr>innerSubscription := Some (runTimer s)\<rparr>)"
    and n: "nextRef ?s = Suc (Suc a)"
    using assms by (simp_all add: session_def switchMap_def setIdleness_def Let_def split: option.split)
  have "\<not> ?P r" if "r < a" for r
    using assms that unfolding st by (auto simp: session_def dead_def split: option.splits)
  then have "filter ?P [0..<a] = []" by (rule filter_upt_none)
  moreover have "\<not> ?P a" using assms unfolding st by (simp add: session_def pair_ok_def)
  moreover have "?P (Suc a)" unfolding st by simp
  ultimately show ?thesis unfolding countdowns_def n by simp
qed

text \<open>
  C6: in every reachable state at most one subscription object of the store
  holds a countdown, the idle flag is up exactly when one does, and that one
  is the countdown of the current idle subscription. Starting a countdown
  (\<open>switchMap\<close> on the idle subscription) leaves exactly one, the new one: a
  prior one is unsubscribed.
\<close>

theorem countdown_lock_step:
  assumes "reachable s"
  shows "length (countdowns s) \<le> 1 \<and>
         (isIdleDetected s = Some True \<longleftrightarrow> countdowns s \<noteq> []) \<and>
         (countdowns s \<noteq> [] \<longleftrightarrow> runningCountdown s \<noteq> None) \<and>
         (\<forall>r. idleSubscription s = Some r \<longrightarrow>
            countdowns (switchMap r s) = [r] \<and>
            map_option innerSubscription (store (switchMap r s) r) = Some (Some (runTimer s)))"
proof -
  from assms have "consistent s" by (rule reachable_consistent)
  then show ?thesis
  proof (cases rule: consistent_cases)
    case never
    then show ?thesis
      using countdowns_never[OF never] never_runningCountdown[OF never]
      by (simp add: never_started_def)
  next
    case (session a pa pi)
    have "map_option innerSubscription (store (switchMap (Suc a) s) (Suc a)) = Some (Some (runTimer s))"
      using session by (simp add: session_def switchMap_def setIdleness_def Let_def split: option.split)
    moreover have "idleSubscription s = Some (Suc a)" using session by (simp add: session_def)
    moreover have "isIdleDetected s = Some True \<longleftrightarrow> innerSubscription pi \<noteq> None"
      using session by (simp add: session_def pair_ok_def)
    ultimately show ?thesis
      using countdowns_session[OF session] countdowns_switchMap[OF session]
        session_runningCountdown[OF session]
      by simp
  qed
qed

theorem countdown_lock_step_witness:
  "reachable example_idle \<and> countdowns example_idle = [1] \<and>
   isIdleDetected example_idle = Some True \<and> idleSubscription example_idle = Some 1 \<and>
   countdowns (switchMap 1 example_idle) = [1] \<and>
   map_option innerSubscription (store (switchMap 1 example_idle) 1) =
     Some (Some \<lparr>notifier = Some DEFAULT_ACTIVITY_EVENTS, tick_due = 2000\<rparr>)"
proof -
  have 1: "isIdleDetected example_idle = Some True" "idleSubscription example_idle = Some 1"
    "runTimer example_idle = \<lparr>notifier = Some DEFAULT_ACTIVITY_EVENTS, tick_due = 2000\<rparr>"
    by (simp_all add: example_idle_eq runTimer_def)
  have 2: "countdowns example_idle = [1]"
    by (simp add: example_idle_eq countdowns_def numeral_2_eq_2)
  from countdown_lock_step[OF reachable_example_idle] 1 2 reachable_example_idle
  show ?thesis by simp
qed

subsection \<open>startWatching\<close>

lemma newSubscription_cong:
  "config s' = config s \<Longrightarrow> activityEvents s' = activityEvents s \<Longrightarrow> clock s' = clock s \<Longrightarrow>
   newSubscription k s' = newSubscription k s"
  by (simp add: newSubscription_def)

lemma activityEvents_startWatching:
  "activityEvents (startWatching s) =
     Some (case activityEvents s of None \<Rightarrow> DEFAULT_ACTIVITY_EVENTS | Some x \<Rightarrow> x)"
  by (simp add: startWatching_def Let_def allocate_def stopWatching_frame split: option.split)

lemma startWatching_rest:
  "isIdleDetected (startWatching s) = isIdleDetected (stopWatching s) \<and>
   outputs (startWatching s) = outputs (stopWatching s)"
  by (simp add: startWatching_def Let_def allocate_def split: option.split)

lemma session_startWatching':
  assumes "consistent s"
  shows "session (startWatching s) (nextRef s)
           (newSubscription ActivityPipeline (startWatching s))
           (newSubscription IdlePipeline (startWatching s))"
proof -
  let ?X = "(stopWatching s)\<lparr>activityEvents := activityEvents (startWatching s)\<rparr>"
  have "newSubscription k ?X = newSubscription k (startWatching s)" for k
    by (rule newSubscription_cong[symmetric]) (simp_all add: startWatching_frame stopWatching_frame)
  with session_startWatching[OF assms] show ?thesis by simp
qed

text \<open>
  C7: \<open>startWatching()\<close> in any reachable state leaves every subscription
  that existed closed, installs the default feed when none was set, and
  creates the two subscriptions afresh (open, empty buffer, first flush one
  period ahead, no countdown), so that exactly those two are live. A second
  call right after the first leaves the same: the same two live
  subscriptions and the same fields, and nothing sent.
\<close>

theorem startWatching_restarts:
  assumes "reachable s"
  shows "activityEvents (startWatching s) =
           Some (case activityEvents s of None \<Rightarrow> DEFAULT_ACTIVITY_EVENTS | Some x \<Rightarrow> x) \<and>
         activitySub (startWatching s) = Some (newSubscription ActivityPipeline (startWatching s)) \<and>
         idleSub (startWatching s) = Some (newSubscription IdlePipeline (startWatching s)) \<and>
         liveSubscriptions (startWatching s) =
           [newSubscription ActivityPipeline (startWatching s),
            newSubscription IdlePipeline (startWatching s)] \<and>
         (\<forall>r<nextRef s. \<not> live (store (startWatching s) r)) \<and>
         outputs (startWatching s) = outputs (stopWatching s) \<and>
         liveSubscriptions (startWatching (startWatching s)) = liveSubscriptions (startWatching s) \<and>
         outputs (startWatching (startWatching s)) = outputs (startWatching s) \<and>
         isIdleDetected (startWatching (startWatching s)) = isIdleDetected (startWatching s) \<and>
         activityEvents (startWatching (startWatching s)) = activityEvents (startWatching s) \<and>
         lastActivity (startWatching (startWatching s)) = lastActivity s \<and>
         config (startWatching (startWatching s)) = config s"
proof -
  let ?s1 = "startWatching s" and ?s2 = "startWatching (startWatching s)"
  from assms have c: "consistent s" by (rule reachable_consistent)
  then have c1: "consistent ?s1" by (rule consistent_startWatching)
  note S1 = session_startWatching'[OF c]
  note S2 = session_startWatching'[OF c1]
  have open1: "\<not> closed (newSubscription k ?s1)" for k by (simp add: newSubscription_def Let_def)
  have open2: "\<not> closed (newSubscription k ?s2)" for k by (simp add: newSubscription_def Let_def)
  have ae: "activityEvents ?s2 = activityEvents ?s1"
    by (simp add: activityEvents_startWatching)
  have same: "newSubscription k ?s2 = newSubscription k ?s1" for k
    by (rule newSubscription_cong) (simp_all add: startWatching_frame ae)
  have stop1: "stopWatching ?s1 =
     ?s1\<lparr>store := (store ?s1)
            (Suc (nextRef s) \<mapsto> (newSubscription IdlePipeline ?s1)\<lparr>closed := True, innerSubscription := None\<rparr>,
             nextRef s \<mapsto> (newSubscription ActivityPipeline ?s1)\<lparr>closed := True, innerSubscription := None\<rparr>),
          isIdleDetected := isIdleDetected ?s1, outputs := outputs ?s1 @ []\<rparr>"
    using stopWatching_session_open[OF S1 open1] by (simp add: newSubscription_def Let_def)
  have quiet: "outputs (stopWatching ?s1) = outputs ?s1"
    "isIdleDetected (stopWatching ?s1) = isIdleDetected ?s1"
    unfolding stop1 by simp_all
  have dead1: "\<not> live (store ?s1 r)" if "r < nextRef s" for r
    using S1 that by (auto simp: session_def dead_def live_def split: option.splits)
  show ?thesis
    using session_subs[OF S1] liveSubscriptions_session[OF S1] liveSubscriptions_session[OF S2]
      open1 open2 same quiet dead1 ae
    by (simp add: activityEvents_startWatching startWatching_rest startWatching_frame)
qed

theorem startWatching_restarts_witness:
  "reachable example_idle \<and>
   liveSubscriptions (startWatching example_idle) =
     [\<lparr>closed = False, pipeline = ActivityPipeline, upstream = Some DEFAULT_ACTIVITY_EVENTS,
       buffer = [], period = 1, flush_due = 1001, innerSubscription = None\<rparr>,
      \<lparr>closed = False, pipeline = IdlePipeline, upstream = Some DEFAULT_ACTIVITY_EVENTS,
       buffer = [], period = 1, flush_due = 1001, innerSubscription = None\<rparr>] \<and>
   \<not> live (store (startWatching example_idle) 0) \<and>
   \<not> live (store (startWatching example_idle) 1) \<and>
   liveSubscriptions (startWatching (startWatching example_idle)) =
     liveSubscriptions (startWatching example_idle)"
proof -
  have 1: "nextRef example_idle = 2" "clock example_idle = 1000"
    "config example_idle = \<lparr>timeout = Some 1, sensitivityMilliseconds = Some 1\<rparr>"
    "activityEvents example_idle = Some DEFAULT_ACTIVITY_EVENTS"
    by (simp_all add: example_idle_eq)
  have 2: "newSubscription k (startWatching example_idle) =
     \<lparr>closed = False, pipeline = k, upstream = Some DEFAULT_ACTIVITY_EVENTS,
       buffer = [], period = 1, flush_due = 1001, innerSubscription = None\<rparr>" for k
    by (simp add: newSubscription_def Let_def startWatching_frame activityEvents_startWatching 1)
  from startWatching_restarts[OF reachable_example_idle] reachable_example_idle
  show ?thesis unfolding 1 2 by simp
qed

subsection \<open>Silence\<close>

lemma elapse_add: "elapse (m + n) s = elapse n (elapse m s)"
  by (induction m arbitrary: s) simp_all

lemma expired_iff:
  "timeout (config s) = Some T \<Longrightarrow> expired s \<longleftrightarrow> lastActivity s + T < clock s div 1000"
  by (simp add: expired_def nowInSeconds_def)

lemma expired_mono:
  assumes "expired s" "clock s \<le> clock s'" "config s' = config s" "lastActivity s' = lastActivity s"
  shows "expired s'"
proof -
  from assms(1) obtain T where T: "timeout (config s) = Some T"
    by (cases "timeout (config s)") (simp_all add: expired_def)
  have "clock s div 1000 \<le> clock s' div 1000" using assms(2) by (rule zdiv_mono1) simp
  with assms T show ?thesis by (simp add: expired_iff)
qed

lemma session_clock:
  "session s a pa pi \<Longrightarrow> innerSubscription pi = None \<Longrightarrow> session (s\<lparr>clock := t\<rparr>) a pa pi"
  by (simp add: session_def pair_ok_def)

lemma elapse_never: "never_started s \<Longrightarrow> elapse n s = s\<lparr>clock := clock s + int n\<rparr>"
proof (induction n arbitrary: s)
  case 0
  show ?case by simp
next
  case (Suc n)
  have "never_started (s\<lparr>clock := clock s + 1\<rparr>)" using Suc.prems by (simp add: never_started_def)
  from Suc.IH[OF this] Suc.prems show ?case by (simp add: advance_never add.assoc)
qed

lemma elapse_closed:
  assumes "session s a pa pi" "closed pi"
  shows "elapse n s = s\<lparr>clock := clock s + int n\<rparr>"
  using assms
proof (induction n arbitrary: s)
  case 0
  show ?case by simp
next
  case (Suc n)
  have "session (s\<lparr>clock := clock s + 1\<rparr>) a pa pi"
    using Suc.prems by (intro session_clock) (simp_all add: session_def pair_ok_def)
  from Suc.IH[OF this Suc.prems(2)] Suc.prems show ?case
    by (simp add: advance_closed add.assoc)
qed

lemma elapse_quiet:
  assumes "session s a pa pi" "\<not> closed pi" "innerSubscription pi = None"
    and "clock s + int n < flush_due pi"
  shows "elapse n s = s\<lparr>clock := clock s + int n\<rparr>"
  using assms
proof (induction n arbitrary: s)
  case 0
  show ?case by simp
next
  case (Suc n)
  have a: "advance s = s\<lparr>clock := clock s + 1\<rparr>"
    using Suc.prems by (intro advance_quiet[OF Suc.prems(1-3)]) simp
  have "session (s\<lparr>clock := clock s + 1\<rparr>) a pa pi"
    using Suc.prems by (intro session_clock)
  from Suc.IH[OF this Suc.prems(2,3)] Suc.prems(4) show ?case
    by (simp add: a add.assoc)
qed

lemma countingI:
  "session s a pa pi \<Longrightarrow> \<not> closed pi \<Longrightarrow> innerSubscription pi = Some c \<Longrightarrow> counting s a c"
  by (auto simp: counting_def)

lemma haltedI: "session s a pa pi \<Longrightarrow> closed pi \<Longrightarrow> halted s a"
  by (auto simp: halted_def)

lemma counting_wait:
  assumes "counting s a c" "tick_due c \<noteq> clock s + 1"
  shows "counting (advance s) a c \<and> later s 1 (advance s) \<and> outputs (advance s) = outputs s \<and>
         isIdleDetected (advance s) = isIdleDetected s"
proof -
  from assms(1) obtain pa pi where S: "session s a pa pi" and O: "\<not> closed pi"
    and I: "innerSubscription pi = Some c" by (auto simp: counting_def)
  have "session (advance s) a (flushed (clock s + 1) pa) (flushed (clock s + 1) pi)"
    unfolding advance_wait[OF S O I assms(2)]
    using S O I assms(2) by (simp add: session_def pair_ok_def flushed_def)
  then have "counting (advance s) a c"
    by (rule countingI) (simp_all add: O I)
  then show ?thesis
    unfolding advance_wait[OF S O I assms(2)] by (simp add: later_def)
qed

lemma counting_tick:
  assumes "counting s a c" "tick_due c = clock s + 1"
    and "\<not> expired (s\<lparr>clock := clock s + 1\<rparr>) \<or> timeoutObservers s = []"
  shows "counting (advance s) a (c\<lparr>tick_due := clock s + 1 + 1000\<rparr>) \<and> later s 1 (advance s) \<and>
         outputs (advance s) =
           outputs s @ (if expired (s\<lparr>clock := clock s + 1\<rparr>) then [TimeoutSignal True] else []) \<and>
         isIdleDetected (advance s) = isIdleDetected s"
proof -
  from assms(1) obtain pa pi where S: "session s a pa pi" and O: "\<not> closed pi"
    and I: "innerSubscription pi = Some c" by (auto simp: counting_def)
  let ?pi = "(flushed (clock s + 1) pi)\<lparr>innerSubscription := Some (c\<lparr>tick_due := clock s + 1 + 1000\<rparr>)\<rparr>"
  let ?X = "s\<lparr>clock := clock s + 1,
       store := (store s)(a \<mapsto> flushed (clock s + 1) pa, Suc a \<mapsto> ?pi)\<rparr>"
  have X: "session ?X a (flushed (clock s + 1) pa) ?pi"
    using S O I assms(2) by (simp add: session_def pair_ok_def flushed_def)
  show ?thesis
  proof (cases "expired (s\<lparr>clock := clock s + 1\<rparr>)")
    case False
    have "session (advance s) a (flushed (clock s + 1) pa) ?pi"
      unfolding advance_tick_early[OF S O I assms(2) False] using X by simp
    then have "counting (advance s) a (c\<lparr>tick_due := clock s + 1 + 1000\<rparr>)"
      by (rule countingI) (simp_all add: O)
    then show ?thesis
      using False unfolding advance_tick_early[OF S O I assms(2) False] by (simp add: later_def)
  next
    case True
    with assms(3) have E: "timeoutObservers s = []" by simp
    have "session (advance s) a (flushed (clock s + 1) pa) ?pi"
      unfolding advance_tick_unobserved[OF S O I assms(2) True E]
      using S O I assms(2) by (simp add: session_def pair_ok_def flushed_def)
    then have "counting (advance s) a (c\<lparr>tick_due := clock s + 1 + 1000\<rparr>)"
      by (rule countingI) (simp_all add: O)
    then show ?thesis
      using True unfolding advance_tick_unobserved[OF S O I assms(2) True E]
      by (simp add: later_def)
  qed
qed

lemma counting_timeout:
  assumes "counting s a c" "tick_due c = clock s + 1"
    and "expired (s\<lparr>clock := clock s + 1\<rparr>)" "timeoutObservers s \<noteq> []"
  shows "halted (advance s) a \<and> later s 1 (advance s) \<and>
         outputs (advance s) =
           outputs s @ [TimeoutSignal True, IdleStatusChanged False] @
             map (\<lambda>k. OnTimeout k True) (timeoutObservers s) \<and>
         isIdleDetected (advance s) = Some False"
proof -
  from assms(1) obtain pa pi where S: "session s a pa pi" and O: "\<not> closed pi"
    and I: "innerSubscription pi = Some c" by (auto simp: counting_def)
  note A = advance_timeout[OF S O I assms(2,3,4)]
  have "session (advance s) a ((flushed (clock s + 1) pa)\<lparr>closed := True\<rparr>)
          ((flushed (clock s + 1) pi)\<lparr>closed := True, innerSubscription := None\<rparr>)"
    unfolding A using S O I by (simp add: session_def pair_ok_def flushed_def)
  then have "halted (advance s) a"
    by (rule haltedI) simp
  then show ?thesis unfolding A by (simp add: later_def)
qed

lemma counting_bounds:
  "counting s a c \<Longrightarrow> clock s < tick_due c \<and> tick_due c \<le> clock s + 1000 \<and>
     isIdleDetected s = Some True"
  by (auto simp: counting_def session_def pair_ok_def)

lemma later_trans: "later s m s' \<Longrightarrow> later s' n s'' \<Longrightarrow> later s (m + n) s''"
  by (simp add: later_def)

lemma later_expired:
  "later s n s' \<Longrightarrow> 0 \<le> n \<Longrightarrow> expired (s\<lparr>clock := clock s + k\<rparr>) \<Longrightarrow> k \<le> n + k' \<Longrightarrow>
   expired (s'\<lparr>clock := clock s' + k'\<rparr>)"
  by (rule expired_mono[of "s\<lparr>clock := clock s + k\<rparr>"]) (simp_all add: later_def)

lemma expired_cong:
  "config s' = config s \<Longrightarrow> lastActivity s' = lastActivity s \<Longrightarrow> clock s' = clock s \<Longrightarrow>
   expired s' = expired s"
  by (simp add: expired_def nowInSeconds_def split: option.split)

lemma later_refl: "later s 0 s"
  by (simp add: later_def)

lemma elapse_halted:
  assumes "halted s a"
  shows "halted (elapse n s) a \<and> later s (int n) (elapse n s) \<and>
         outputs (elapse n s) = outputs s \<and> isIdleDetected (elapse n s) = isIdleDetected s"
proof -
  from assms obtain pa pi where S: "session s a pa pi" and C: "closed pi"
    by (auto simp: halted_def)
  have e: "elapse n s = s\<lparr>clock := clock s + int n\<rparr>" using S C by (rule elapse_closed)
  have "innerSubscription pi = None" using S C by (simp add: session_def pair_ok_def)
  with S have "session (s\<lparr>clock := clock s + int n\<rparr>) a pa pi" by (rule session_clock)
  then have "halted (s\<lparr>clock := clock s + int n\<rparr>) a" using C by (rule haltedI)
  then show ?thesis unfolding e by (simp add: later_def)
qed

lemma elapse_waiting:
  assumes "counting s a c" "\<not> expired (s\<lparr>clock := clock s + int n\<rparr>)"
  shows "\<exists>c'. counting (elapse n s) a c' \<and> later s (int n) (elapse n s) \<and>
              outputs (elapse n s) = outputs s"
  using assms
proof (induction n arbitrary: s c)
  case 0
  have "later s (int 0) (elapse 0 s)" by (simp add: later_refl)
  with "0.prems"(1) show ?case by (intro exI[of _ c]) simp
next
  case (Suc n)
  have ne: "\<not> expired (s\<lparr>clock := clock s + 1\<rparr>)"
  proof
    assume "expired (s\<lparr>clock := clock s + 1\<rparr>)"
    then have "expired (s\<lparr>clock := clock s + int (Suc n)\<rparr>)"
      by (rule expired_mono) simp_all
    with Suc.prems(2) show False by simp
  qed
  have "\<exists>c1. counting (advance s) a c1 \<and> later s 1 (advance s) \<and> outputs (advance s) = outputs s"
  proof (cases "tick_due c = clock s + 1")
    case False
    from counting_wait[OF Suc.prems(1) False] show ?thesis by blast
  next
    case True
    from counting_tick[OF Suc.prems(1) True] ne show ?thesis by auto
  qed
  then obtain c1 where c1: "counting (advance s) a c1" and l1: "later s 1 (advance s)"
    and o1: "outputs (advance s) = outputs s" by blast
  have "expired ((advance s)\<lparr>clock := clock (advance s) + int n\<rparr>) =
        expired (s\<lparr>clock := clock s + int (Suc n)\<rparr>)"
    using l1 by (intro expired_cong) (simp_all add: later_def)
  with Suc.prems(2) have "\<not> expired ((advance s)\<lparr>clock := clock (advance s) + int n\<rparr>)" by simp
  from Suc.IH[OF c1 this] obtain c' where
    c': "counting (elapse n (advance s)) a c'"
    and l': "later (advance s) (int n) (elapse n (advance s))"
    and o': "outputs (elapse n (advance s)) = outputs (advance s)" by blast
  have L: "later s (int (Suc n)) (elapse (Suc n) s)" using later_trans[OF l1 l'] by simp
  have O: "outputs (elapse (Suc n) s) = outputs s" using o' o1 by simp
  from c' L O show ?case by (intro exI[of _ c']) simp
qed

lemma elapse_observed:
  assumes "counting s a c" "timeoutObservers s \<noteq> []" "expired (s\<lparr>clock := clock s + 1\<rparr>)"
    and "tick_due c \<le> clock s + int n"
  shows "halted (elapse n s) a \<and> later s (int n) (elapse n s) \<and>
         outputs (elapse n s) =
           outputs s @ [TimeoutSignal True, IdleStatusChanged False] @
             map (\<lambda>k. OnTimeout k True) (timeoutObservers s) \<and>
         isIdleDetected (elapse n s) = Some False"
  using assms
proof (induction n arbitrary: s)
  case 0
  with counting_bounds[OF "0.prems"(1)] show ?case by simp
next
  case (Suc n)
  show ?case
  proof (cases "tick_due c = clock s + 1")
    case True
    from counting_timeout[OF Suc.prems(1) True Suc.prems(3,2)]
    have h: "halted (advance s) a" and l: "later s 1 (advance s)"
      and o: "outputs (advance s) =
           outputs s @ [TimeoutSignal True, IdleStatusChanged False] @
             map (\<lambda>k. OnTimeout k True) (timeoutObservers s)"
      and i: "isIdleDetected (advance s) = Some False" by simp_all
    from elapse_halted[OF h, of n]
    have h': "halted (elapse n (advance s)) a" and l': "later (advance s) (int n) (elapse n (advance s))"
      and o': "outputs (elapse n (advance s)) = outputs (advance s)"
      and i': "isIdleDetected (elapse n (advance s)) = isIdleDetected (advance s)" by simp_all
    have L: "later s (int (Suc n)) (elapse (Suc n) s)" using later_trans[OF l l'] by simp
    from h' L o' o i' i show ?thesis by simp
  next
    case False
    from counting_wait[OF Suc.prems(1) False]
    have c: "counting (advance s) a c" and l: "later s 1 (advance s)"
      and o: "outputs (advance s) = outputs s" by simp_all
    have obs: "timeoutObservers (advance s) = timeoutObservers s" using l by (simp add: later_def)
    have ob: "timeoutObservers (advance s) \<noteq> []" using obs Suc.prems(2) by simp
    have ex: "expired ((advance s)\<lparr>clock := clock (advance s) + 1\<rparr>)"
      by (rule later_expired[OF l _ Suc.prems(3)]) simp_all
    have td: "tick_due c \<le> clock (advance s) + int n"
      using l Suc.prems(4) by (simp add: later_def)
    from Suc.IH[OF c ob ex td]
    have h': "halted (elapse n (advance s)) a" and l': "later (advance s) (int n) (elapse n (advance s))"
      and o': "outputs (elapse n (advance s)) =
           outputs (advance s) @ [TimeoutSignal True, IdleStatusChanged False] @
             map (\<lambda>k. OnTimeout k True) (timeoutObservers (advance s))"
      and i': "isIdleDetected (elapse n (advance s)) = Some False" by simp_all
    have L: "later s (int (Suc n)) (elapse (Suc n) s)" using later_trans[OF l l'] by simp
    from h' L o' o i' obs show ?thesis by simp
  qed
qed

lemma div_1000_shift: "((x::int) - 1000) div 1000 = x div 1000 - 1"
  using div_mult_self1[of "1000::int" x "-1"] by simp

lemma div_1000_nonneg: "(0::int) \<le> int n div 1000"
  by (rule pos_imp_zdiv_nonneg_iff[THEN iffD2]) simp_all

lemma div_1000_before: "x < d \<Longrightarrow> d \<le> x + 1000 \<Longrightarrow> ((x::int) - d) div 1000 = -1"
  by (rule int_div_pos_eq[where r="x - d + 1000"]) simp_all

lemma tick_count_step: "Suc (nat ((x + 1 + int n - (x + 1 + 1000)) div 1000 + 1)) =
             nat ((x + int (Suc n) - (x + 1)) div 1000 + 1)"
proof -
  have 1: "x + 1 + int n - (x + 1 + 1000) = int n - 1000" by simp
  have 2: "x + int (Suc n) - (x + 1) = int n" by simp
  have 3: "(0::int) \<le> int n div 1000" by (rule div_1000_nonneg)
  show ?thesis unfolding 1 2 div_1000_shift using 3 by linarith
qed

lemma elapse_unobserved:
  assumes "counting s a c" "timeoutObservers s = []" "expired (s\<lparr>clock := clock s + 1\<rparr>)"
  shows "\<exists>c'. counting (elapse n s) a c' \<and> later s (int n) (elapse n s) \<and>
              outputs (elapse n s) =
                outputs s @ replicate (nat ((clock s + int n - tick_due c) div 1000 + 1))
                              (TimeoutSignal True)"
  using assms
proof (induction n arbitrary: s c)
  case 0
  from counting_bounds[OF "0.prems"(1)]
  have "(clock s - tick_due c) div 1000 = -1"
    by (intro div_1000_before) simp_all
  then have "outputs (elapse 0 s) =
      outputs s @ replicate (nat ((clock s + int 0 - tick_due c) div 1000 + 1)) (TimeoutSignal True)"
    by simp
  moreover have "later s (int 0) (elapse 0 s)" by (simp add: later_refl)
  moreover have "counting (elapse 0 s) a c" using "0.prems"(1) by simp
  ultimately show ?case by blast
next
  case (Suc n)
  note e1 = Suc.prems(3)
  show ?case
  proof (cases "tick_due c = clock s + 1")
    case False
    from counting_wait[OF Suc.prems(1) False]
    have c: "counting (advance s) a c" and l: "later s 1 (advance s)"
      and o: "outputs (advance s) = outputs s" by simp_all
    have ob: "timeoutObservers (advance s) = []" using l Suc.prems(2) by (simp add: later_def)
    have ex: "expired ((advance s)\<lparr>clock := clock (advance s) + 1\<rparr>)"
      by (rule later_expired[OF l _ e1]) simp_all
    have ck: "clock (advance s) = clock s + 1" using l by (simp add: later_def)
    have eq: "clock s + 1 + int n = clock s + int (Suc n)" by simp
    from Suc.IH[OF c ob ex] obtain c' where
      c': "counting (elapse n (advance s)) a c'"
      and l': "later (advance s) (int n) (elapse n (advance s))"
      and o': "outputs (elapse n (advance s)) =
         outputs (advance s) @
         replicate (nat ((clock s + int (Suc n) - tick_due c) div 1000 + 1)) (TimeoutSignal True)"
      unfolding ck eq by blast
    have C: "counting (elapse (Suc n) s) a c'" using c' by simp
    have L: "later s (int (Suc n)) (elapse (Suc n) s)" using later_trans[OF l l'] by simp
    have O: "outputs (elapse (Suc n) s) =
         outputs s @
         replicate (nat ((clock s + int (Suc n) - tick_due c) div 1000 + 1)) (TimeoutSignal True)"
      using o' unfolding o by simp
    from C L O show ?thesis by blast
  next
    case True
    let ?c = "c\<lparr>tick_due := clock s + 1 + 1000\<rparr>"
    from counting_tick[OF Suc.prems(1) True] Suc.prems(2) e1
    have c: "counting (advance s) a ?c" and l: "later s 1 (advance s)"
      and o: "outputs (advance s) = outputs s @ [TimeoutSignal True]" by simp_all
    have ob: "timeoutObservers (advance s) = []" using l Suc.prems(2) by (simp add: later_def)
    have ex: "expired ((advance s)\<lparr>clock := clock (advance s) + 1\<rparr>)"
      by (rule later_expired[OF l _ e1]) simp_all
    have ck: "clock (advance s) = clock s + 1" using l by (simp add: later_def)
    have k: "Suc (nat ((clock s + 1 + int n - tick_due ?c) div 1000 + 1)) =
             nat ((clock s + int (Suc n) - tick_due c) div 1000 + 1)"
    proof -
      have td: "tick_due ?c = clock s + 1 + 1000" by simp
      show ?thesis unfolding True td by (rule tick_count_step)
    qed
    from Suc.IH[OF c ob ex] obtain c' where
      c': "counting (elapse n (advance s)) a c'"
      and l': "later (advance s) (int n) (elapse n (advance s))"
      and o': "outputs (elapse n (advance s)) =
         outputs (advance s) @
         replicate (nat ((clock s + 1 + int n - tick_due ?c) div 1000 + 1)) (TimeoutSignal True)"
      unfolding ck by blast
    have C: "counting (elapse (Suc n) s) a c'" using c' by simp
    have L: "later s (int (Suc n)) (elapse (Suc n) s)" using later_trans[OF l l'] by simp
    have "outputs (elapse (Suc n) s) =
        outputs s @ replicate (Suc (nat ((clock s + 1 + int n - tick_due ?c) div 1000 + 1)))
           (TimeoutSignal True)"
      using o' unfolding o by simp
    then have O: "outputs (elapse (Suc n) s) =
        outputs s @ replicate (nat ((clock s + int (Suc n) - tick_due c) div 1000 + 1))
           (TimeoutSignal True)"
      unfolding k .
    from C L O show ?thesis by blast
  qed
qed

lemma counting_subs:
  assumes "counting s a c"
  shows "live (idleSub s) \<and> live (activitySub s) \<and> runningCountdown s = Some c"
proof -
  from assms obtain pa pi where S: "session s a pa pi" and O: "\<not> closed pi"
    and I: "innerSubscription pi = Some c" by (auto simp: counting_def)
  from S O have "\<not> closed pa" by (simp add: session_def pair_ok_def)
  with session_subs[OF S] session_runningCountdown[OF S] O I show ?thesis
    by (simp add: live_def)
qed

lemma halted_subs:
  assumes "halted s a"
  shows "\<not> live (idleSub s) \<and> \<not> live (activitySub s) \<and> runningCountdown s = None"
proof -
  from assms obtain pa pi where S: "session s a pa pi" and C: "closed pi"
    by (auto simp: halted_def)
  from S C have "closed pa" "innerSubscription pi = None" by (simp_all add: session_def pair_ok_def)
  with session_subs[OF S] session_runningCountdown[OF S] C show ?thesis
    by (simp add: live_def)
qed

lemma reachable_counting:
  assumes "reachable s" "runningCountdown s = Some c"
  shows "\<exists>a. counting s a c"
proof -
  from assms(1) have "consistent s" by (rule reachable_consistent)
  then show ?thesis
  proof (cases rule: consistent_cases)
    case never
    with assms(2) show ?thesis by (simp add: never_runningCountdown)
  next
    case (session a pa pi)
    from runningCountdown_session[OF session assms(2)] session show ?thesis
      by (auto intro: countingI)
  qed
qed

lemma quiet_to_counting:
  assumes "session s a pa pi" "\<not> closed pi" "innerSubscription pi = None"
    and "flush_due pi \<le> clock s + 1" "buffer pi = []"
  shows "counting (advance s) a \<lparr>notifier = activityEvents s, tick_due = clock s + 1 + 1000\<rparr> \<and>
         later s 1 (advance s) \<and> outputs (advance s) = outputs s @ [IdleStatusChanged True]"
proof -
  note A = advance_idle[OF assms]
  let ?pi = "pi\<lparr>buffer := [], flush_due := flush_due pi + period pi,
                innerSubscription := Some \<lparr>notifier = activityEvents s,
                                           tick_due = clock s + 1 + 1000\<rparr>\<rparr>"
  have "session (advance s) a (pa\<lparr>buffer := [], flush_due := flush_due pa + period pa\<rparr>) ?pi"
    unfolding A using assms(1-3) by (simp add: session_def pair_ok_def)
  then have "counting (advance s) a \<lparr>notifier = activityEvents s, tick_due = clock s + 1 + 1000\<rparr>"
    by (rule countingI) (simp_all add: assms(2))
  then show ?thesis unfolding A by (simp add: later_def)
qed

lemma counting_activityEvent:
  assumes "counting s a c" "activityEvents s = Some src"
  shows "outputs (activityEvent src e s) = outputs s @ [IdleStatusChanged False] \<and>
         live (idleSub (activityEvent src e s))"
proof -
  from assms(1) obtain pa pi where S: "session s a pa pi" and O: "\<not> closed pi"
    and I: "innerSubscription pi = Some c" by (auto simp: counting_def)
  show ?thesis
    using S O I unfolding activityEvent_open[OF S O assms(2)]
    by (simp add: session_def idleSub_def live_def)
qed

lemma halted_step:
  assumes "halted s a" "no_call x"
  shows "halted (step x s) a \<and> outputs (step x s) = outputs s \<and>
         isIdleDetected (step x s) = isIdleDetected s"
proof (cases x)
  case (ActivityEvent src e)
  from assms(1) obtain pa pi where "session s a pa pi" "closed pi" by (auto simp: halted_def)
  then have "activityEvent src e s = s" by (rule activityEvent_closed)
  with assms(1) ActivityEvent show ?thesis by simp
next
  case (Elapse n)
  with elapse_halted[OF assms(1), of n] show ?thesis by simp
qed (use assms(2) in simp_all)

lemma halted_run:
  assumes "halted s a" "list_all no_call xs"
  shows "outputs (run xs s) = outputs s \<and> isIdleDetected (run xs s) = isIdleDetected s"
  using assms
proof (induction xs arbitrary: s)
  case Nil
  show ?case by (simp add: run_def)
next
  case (Cons x xs)
  from Cons.prems have p: "no_call x" "list_all no_call xs" by simp_all
  from halted_step[OF Cons.prems(1) p(1)] Cons.IH[OF _ p(2), of "step x s"]
  show ?case by (simp add: run_def)
qed

subsection \<open>From startWatching to the timeout\<close>

lemma silence_to_timeout:
  assumes c: "consistent s" and obs: "timeoutObservers s \<noteq> []"
    and T: "timeout (config s) = Some T" and S: "sensitivityMilliseconds (config s) = Some S"
    and pos: "0 < S" and D1: "S + 1000 \<le> int D" and D2: "1000 * T + 1999 \<le> int D"
  shows "halted (elapse D (startWatching s)) (nextRef s) \<and>
         outputs (elapse D (startWatching s)) =
           outputs (startWatching s) @
           [IdleStatusChanged True, TimeoutSignal True, IdleStatusChanged False] @
           map (\<lambda>k. OnTimeout k True) (timeoutObservers s) \<and>
         isIdleDetected (elapse D (startWatching s)) = Some False"
proof -
  let ?s1 = "startWatching s"
  let ?a = "nextRef s"
  let ?pa = "newSubscription ActivityPipeline ?s1"
  let ?pi = "newSubscription IdlePipeline ?s1"
  let ?L = "lastActivity s"
  have S1: "session ?s1 ?a ?pa ?pi" using c by (rule session_startWatching')
  have fr: "clock ?s1 = clock s" "config ?s1 = config s" "lastActivity ?s1 = ?L"
    "timeoutObservers ?s1 = timeoutObservers s"
    by (simp_all add: startWatching_frame)
  have pi: "\<not> closed ?pi" "innerSubscription ?pi = None" "buffer ?pi = []"
    "flush_due ?pi = clock s + S"
    by (simp_all add: newSubscription_def Let_def fr S)
  have L: "1000 * ?L \<le> clock s"
  proof -
    from c have "?L \<le> clock s div 1000" by (simp add: consistent_def)
    then show ?thesis by linarith
  qed
  \<comment> \<open>the first window is still open\<close>
  define n1 where "n1 = nat (S - 1)"
  have n1: "int n1 = S - 1" using pos by (simp add: n1_def)
  define q where "q = ?s1\<lparr>clock := clock ?s1 + int n1\<rparr>"
  have q: "elapse n1 ?s1 = q"
    unfolding q_def using S1 pi(1,2) by (rule elapse_quiet) (simp add: pi fr n1)
  have Sq: "session q ?a ?pa ?pi" unfolding q_def using S1 pi(2) by (rule session_clock)
  have kq: "clock q = clock s + S - 1" "config q = config s" "lastActivity q = ?L"
    "timeoutObservers q = timeoutObservers s" "outputs q = outputs ?s1"
    by (simp_all add: q_def fr n1)
  \<comment> \<open>the first window is empty: the countdown starts\<close>
  define s2 where "s2 = advance q"
  have "flush_due ?pi \<le> clock q + 1" by (simp add: pi kq)
  from quiet_to_counting[OF Sq pi(1,2) this pi(3)]
  have "\<exists>c2. counting s2 ?a c2" and l2: "later q 1 s2"
    and o2: "outputs s2 = outputs ?s1 @ [IdleStatusChanged True]"
    unfolding s2_def by (auto simp: kq)
  then obtain c2 where c2: "counting s2 ?a c2" by blast
  have k2: "clock s2 = clock s + S" "config s2 = config s" "lastActivity s2 = ?L"
    "timeoutObservers s2 = timeoutObservers s"
    using l2 by (simp_all add: later_def kq)
  \<comment> \<open>the ticks before the threshold is passed\<close>
  define w where "w = nat (1000 * (?L + T + 1) - 1 - (clock s + S))"
  have "\<exists>c3. counting (elapse w s2) ?a c3 \<and> later s2 (int w) (elapse w s2) \<and>
          outputs (elapse w s2) = outputs s2"
  proof (cases "w = 0")
    case True
    with c2 show ?thesis by (auto simp: later_refl)
  next
    case False
    then have wi: "int w = 1000 * (?L + T + 1) - 1 - (clock s + S)" by (simp add: w_def)
    have "(clock s2 + int w) div 1000 = ?L + T"
      unfolding k2 wi by (rule int_div_pos_eq[where r = 999]) simp_all
    moreover have "expired (s2\<lparr>clock := clock s2 + int w\<rparr>) \<longleftrightarrow>
        lastActivity (s2\<lparr>clock := clock s2 + int w\<rparr>) + T
          < clock (s2\<lparr>clock := clock s2 + int w\<rparr>) div 1000"
      by (rule expired_iff) (simp add: k2 T)
    ultimately have "\<not> expired (s2\<lparr>clock := clock s2 + int w\<rparr>)"
      by (simp add: k2)
    with c2 show ?thesis by (rule elapse_waiting)
  qed
  then obtain c3 where c3': "counting (elapse w s2) ?a c3"
    and l3': "later s2 (int w) (elapse w s2)"
    and o3': "outputs (elapse w s2) = outputs s2" by blast
  define s3 where "s3 = elapse w s2"
  note c3 = c3'[folded s3_def] and l3 = l3'[folded s3_def] and o3 = o3'[folded s3_def]
  have k3: "clock s3 = clock s + S + int w" "config s3 = config s" "lastActivity s3 = ?L"
    "timeoutObservers s3 = timeoutObservers s"
    using l3 by (simp_all add: later_def k2)
  have ge: "1000 * (?L + T + 1) \<le> clock s3 + 1" unfolding k3 by (simp add: w_def)
  have ex3: "expired (s3\<lparr>clock := clock s3 + 1\<rparr>)"
  proof -
    have "(1000 * (?L + T + 1)) div 1000 \<le> (clock s3 + 1) div 1000"
      using ge by (rule zdiv_mono1) simp
    then have "?L + T < (clock s3 + 1) div 1000" by simp
    moreover have "expired (s3\<lparr>clock := clock s3 + 1\<rparr>) \<longleftrightarrow>
        lastActivity (s3\<lparr>clock := clock s3 + 1\<rparr>) + T
          < clock (s3\<lparr>clock := clock s3 + 1\<rparr>) div 1000"
      by (rule expired_iff) (simp add: k3 T)
    ultimately show ?thesis by (simp add: k3)
  qed
  \<comment> \<open>the tick that fires\<close>
  define m where "m = D - nat S - w"
  have wle: "int w \<le> 1000 * T + 999 - S \<or> w = 0" using L by (simp add: w_def)
  have D: "D = nat S + w + m" "1000 \<le> int m"
    using pos D1 D2 wle by (auto simp: m_def)
  have "tick_due c3 \<le> clock s3 + int m"
    using counting_bounds[OF c3] D(2) by simp
  from elapse_observed[OF c3 _ ex3 this]
  have h: "halted (elapse m s3) ?a"
    and o4: "outputs (elapse m s3) =
       outputs s3 @ [TimeoutSignal True, IdleStatusChanged False] @
         map (\<lambda>k. OnTimeout k True) (timeoutObservers s)"
    and i4: "isIdleDetected (elapse m s3) = Some False"
    using obs by (simp_all add: k3)
  have "nat S = n1 + 1" using pos by (simp add: n1_def)
  then have "elapse D ?s1 = elapse m (elapse w (elapse 1 (elapse n1 ?s1)))"
    unfolding D(1) by (simp only: elapse_add)
  then have e: "elapse D ?s1 = elapse m s3" unfolding q s3_def s2_def by simp
  show ?thesis unfolding e using h o4 i4 o3 o2 by simp
qed

subsection \<open>The example runs\<close>

lemma never_started_constructor: "never_started (constructor cfg now)"
  by (simp add: never_started_def constructor_def)

lemma example_overdue_eq:
  "example_overdue =
     \<lparr>config = \<lparr>timeout = Some 1, sensitivityMilliseconds = Some 1\<rparr>,
      activityEvents = Some DEFAULT_ACTIVITY_EVENTS, lastActivity = 0,
      isIdleDetected = Some True,
      idleSubscription = Some 1, activitySubscription = Some 0,
      store = (\<lambda>_. None)
        (0 \<mapsto> \<lparr>closed = False, pipeline = ActivityPipeline,
                upstream = Some DEFAULT_ACTIVITY_EVENTS, buffer = [], period = 1,
                flush_due = 2001, innerSubscription = None\<rparr>,
         1 \<mapsto> \<lparr>closed = False, pipeline = IdlePipeline,
                upstream = Some DEFAULT_ACTIVITY_EVENTS, buffer = [], period = 1,
                flush_due = 2001,
                innerSubscription = Some \<lparr>notifier = Some DEFAULT_ACTIVITY_EVENTS, tick_due = 3000\<rparr>\<rparr>),
      nextRef = 2, timeoutObservers = [], clock = 2000, outputs = [IdleStatusChanged True]\<rparr>"
  unfolding example_overdue_def elapse_never[OF never_started_constructor]
  by (simp add: example_config_def startWatching_def constructor_def
        stopWatching_def spread_def DEFAULT_CONFIG_def allocate_def newSubscription_def Let_def
        advance_def runDueTimers_def fire_def flush_def switchMap_def setIdleness_def
        runTimer_def nowInSeconds_def numeral_2_eq_2)

lemma reachable_example_overdue: "reachable example_overdue"
proof -
  have "reachable (step (Elapse 1) (step StartWatching (step (Elapse 1000)
          (constructor example_config 999))))"
    by (intro reachable_step reachable_constructor)
  then show ?thesis by (simp add: example_overdue_def)
qed

lemma counting_example_overdue:
  "counting example_overdue 0 \<lparr>notifier = Some DEFAULT_ACTIVITY_EVENTS, tick_due = 3000\<rparr>"
  by (rule countingI[where
        pa = "\<lparr>closed = False, pipeline = ActivityPipeline,
                upstream = Some DEFAULT_ACTIVITY_EVENTS, buffer = [], period = 1,
                flush_due = 2001, innerSubscription = None\<rparr>" and
        pi = "\<lparr>closed = False, pipeline = IdlePipeline,
                upstream = Some DEFAULT_ACTIVITY_EVENTS, buffer = [], period = 1,
                flush_due = 2001,
                innerSubscription = Some \<lparr>notifier = Some DEFAULT_ACTIVITY_EVENTS, tick_due = 3000\<rparr>\<rparr>"])
     (simp_all add: example_overdue_eq session_def pair_ok_def)

lemma example_observed_idle_eq:
  "example_observed_idle =
     \<lparr>config = \<lparr>timeout = Some 1, sensitivityMilliseconds = Some 1\<rparr>,
      activityEvents = Some DEFAULT_ACTIVITY_EVENTS, lastActivity = 0,
      isIdleDetected = Some True,
      idleSubscription = Some 1, activitySubscription = Some 0,
      store = (\<lambda>_. None)
        (0 \<mapsto> \<lparr>closed = False, pipeline = ActivityPipeline,
                upstream = Some DEFAULT_ACTIVITY_EVENTS, buffer = [], period = 1,
                flush_due = 1001, innerSubscription = None\<rparr>,
         1 \<mapsto> \<lparr>closed = False, pipeline = IdlePipeline,
                upstream = Some DEFAULT_ACTIVITY_EVENTS, buffer = [], period = 1,
                flush_due = 1001,
                innerSubscription = Some \<lparr>notifier = Some DEFAULT_ACTIVITY_EVENTS, tick_due = 2000\<rparr>\<rparr>),
      nextRef = 2, timeoutObservers = [7], clock = 1000, outputs = [IdleStatusChanged True]\<rparr>"
  by (simp add: example_observed_idle_def example_observed_def onTimeout_subscribe_def
        example_config_def startWatching_def constructor_def stopWatching_def spread_def DEFAULT_CONFIG_def allocate_def
        newSubscription_def Let_def advance_def runDueTimers_def fire_def flush_def switchMap_def
        setIdleness_def runTimer_def nowInSeconds_def numeral_2_eq_2)

lemma counting_example_observed_idle:
  "counting example_observed_idle 0
     \<lparr>notifier = Some DEFAULT_ACTIVITY_EVENTS, tick_due = 2000\<rparr>"
  by (rule countingI[where
        pa = "\<lparr>closed = False, pipeline = ActivityPipeline,
                upstream = Some DEFAULT_ACTIVITY_EVENTS, buffer = [], period = 1,
                flush_due = 1001, innerSubscription = None\<rparr>" and
        pi = "\<lparr>closed = False, pipeline = IdlePipeline,
                upstream = Some DEFAULT_ACTIVITY_EVENTS, buffer = [], period = 1,
                flush_due = 1001,
                innerSubscription = Some \<lparr>notifier = Some DEFAULT_ACTIVITY_EVENTS, tick_due = 2000\<rparr>\<rparr>"])
     (simp_all add: example_observed_idle_eq session_def pair_ok_def)

lemma reachable_example_observed: "reachable example_observed"
proof -
  have "reachable (step (SubscribeOnTimeout 7) (constructor example_config 999))"
    by (intro reachable_step reachable_constructor)
  then show ?thesis by (simp add: example_observed_def)
qed

text \<open>
  C10: \<open>stopWatching()\<close> on a timeout is called only by the pipeline of
  \<open>onTimeout()\<close>. With no subscriber to it, once the threshold is passed
  while a countdown runs, the service stays subscribed and idle for as long
  as nothing else happens, and every tick of the countdown (the first at its
  due time, then one per second) sends \<open>true\<close> on \<open>timeout$\<close> again.
\<close>

theorem unobserved_timeout_repeats:
  assumes "reachable s" and "timeoutObservers s = []" and "runningCountdown s = Some c"
    and "expired s"
  shows "live (idleSub (elapse n s)) \<and> live (activitySub (elapse n s)) \<and>
         runningCountdown (elapse n s) \<noteq> None \<and>
         isIdleDetected (elapse n s) = Some True \<and>
         outputs (elapse n s) =
           outputs s @
           replicate (nat ((clock s + int n - tick_due c) div 1000 + 1)) (TimeoutSignal True)"
proof -
  from reachable_counting[OF assms(1,3)] obtain a where a: "counting s a c" by blast
  have "expired (s\<lparr>clock := clock s + 1\<rparr>)" using assms(4) by (rule expired_mono) simp_all
  from elapse_unobserved[OF a assms(2) this, of n] obtain c' where
    "counting (elapse n s) a c'"
    "outputs (elapse n s) =
       outputs s @ replicate (nat ((clock s + int n - tick_due c) div 1000 + 1)) (TimeoutSignal True)"
    by blast
  with counting_subs[OF this(1)] counting_bounds[OF this(1)] show ?thesis by simp
qed

theorem unobserved_timeout_repeats_witness:
  "reachable example_overdue \<and> timeoutObservers example_overdue = [] \<and>
   runningCountdown example_overdue =
     Some \<lparr>notifier = Some DEFAULT_ACTIVITY_EVENTS, tick_due = 3000\<rparr> \<and>
   expired example_overdue \<and>
   live (idleSub (elapse 2000 example_overdue)) \<and>
   outputs (elapse 2000 example_overdue) =
     [IdleStatusChanged True, TimeoutSignal True, TimeoutSignal True]"
proof -
  let ?c = "\<lparr>notifier = Some DEFAULT_ACTIVITY_EVENTS, tick_due = 3000\<rparr>"
  have 2: "timeoutObservers example_overdue = []" by (simp add: example_overdue_eq)
  have 3: "runningCountdown example_overdue = Some ?c"
    by (simp add: example_overdue_eq runningCountdown_def idleSub_def)
  have 4: "expired example_overdue"
    by (simp add: example_overdue_eq expired_def nowInSeconds_def)
  have 5: "clock example_overdue = 2000" "outputs example_overdue = [IdleStatusChanged True]"
    by (simp_all add: example_overdue_eq)
  have 6: "replicate (nat ((2000 + int 2000 - tick_due ?c) div 1000 + 1)) (TimeoutSignal True) =
      [TimeoutSignal True, TimeoutSignal True]"
    by (simp add: numeral_2_eq_2)
  from unobserved_timeout_repeats[OF reachable_example_overdue 2 3 4, of 2000]
    reachable_example_overdue 2 3 4
  show ?thesis unfolding 5 6 by simp
qed

text \<open>
  C1, as the code has it. With a subscriber to \<open>onTimeout()\<close> and a positive
  sensitivity \<open>S\<close>, if no raw event arrives and no call is made for \<open>D\<close>
  milliseconds after \<open>startWatching()\<close>, where \<open>D\<close> covers the first window
  and one tick (\<open>S + 1000 \<le> D\<close>) and the threshold \<open>T\<close> with the rounding of
  the clock to whole seconds and the phase of the ticks
  (\<open>1000 * T + 1999 \<le> D\<close>), then the service has gone idle, sent one
  \<open>true\<close> on \<open>timeout$\<close>, stopped watching (both subscriptions closed, the
  flag down) and delivered exactly one \<open>true\<close> to each subscriber; and
  whatever raw events and time follow send nothing more and leave the flag
  down.
\<close>

theorem timeout_after_silence:
  assumes "reachable s" and "timeoutObservers s \<noteq> []"
    and "timeout (config s) = Some T" and "sensitivityMilliseconds (config s) = Some S"
    and "0 < S" and "S + 1000 \<le> int D" and "1000 * T + 1999 \<le> int D"
  shows "outputs (elapse D (startWatching s)) =
           outputs (startWatching s) @
           [IdleStatusChanged True, TimeoutSignal True, IdleStatusChanged False] @
           map (\<lambda>k. OnTimeout k True) (timeoutObservers s) \<and>
         \<not> live (idleSub (elapse D (startWatching s))) \<and>
         \<not> live (activitySub (elapse D (startWatching s))) \<and>
         isIdleDetected (elapse D (startWatching s)) = Some False \<and>
         (\<forall>xs. list_all no_call xs \<longrightarrow>
            outputs (run xs (elapse D (startWatching s))) = outputs (elapse D (startWatching s)) \<and>
            isIdleDetected (run xs (elapse D (startWatching s))) = Some False)"
proof -
  from assms(1) have c: "consistent s" by (rule reachable_consistent)
  from silence_to_timeout[OF c assms(2-7)]
  have h: "halted (elapse D (startWatching s)) (nextRef s)"
    and o: "outputs (elapse D (startWatching s)) =
           outputs (startWatching s) @
           [IdleStatusChanged True, TimeoutSignal True, IdleStatusChanged False] @
           map (\<lambda>k. OnTimeout k True) (timeoutObservers s)"
    and i: "isIdleDetected (elapse D (startWatching s)) = Some False" by simp_all
  from halted_subs[OF h] halted_run[OF h] o i show ?thesis by simp
qed

theorem timeout_after_silence_witness:
  "reachable example_observed \<and> timeoutObservers example_observed = [7] \<and>
   timeout (config example_observed) = Some 1 \<and>
   sensitivityMilliseconds (config example_observed) = Some 1 \<and>
   outputs (elapse 2999 (startWatching example_observed)) =
     [IdleStatusChanged True, TimeoutSignal True, IdleStatusChanged False, OnTimeout 7 True] \<and>
   \<not> live (idleSub (elapse 2999 (startWatching example_observed))) \<and>
   outputs (run [ActivityEvent DEFAULT_ACTIVITY_EVENTS 0, Elapse 5000]
              (elapse 2999 (startWatching example_observed))) =
     [IdleStatusChanged True, TimeoutSignal True, IdleStatusChanged False, OnTimeout 7 True]"
proof -
  have 2: "timeoutObservers example_observed \<noteq> []"
    and obs: "timeoutObservers example_observed = [7]"
    and 3: "timeout (config example_observed) = Some 1"
    and 4: "sensitivityMilliseconds (config example_observed) = Some 1"
    by (simp_all add: example_observed_def onTimeout_subscribe_def constructor_def
          example_config_def spread_def)
  have 5: "(0::int) < 1" "(1::int) + 1000 \<le> int 2999" "1000 * (1::int) + 1999 \<le> int 2999"
    by simp_all
  have 6: "outputs (startWatching example_observed) = []"
    by (simp add: example_observed_def onTimeout_subscribe_def constructor_def
          startWatching_def stopWatching_def allocate_def Let_def)
  have 7: "list_all no_call [ActivityEvent DEFAULT_ACTIVITY_EVENTS 0, Elapse 5000]" by simp
  from timeout_after_silence[OF reachable_example_observed 2 3 4 5] 7
    reachable_example_observed obs 3 4
  show ?thesis unfolding 6 by simp
qed

text \<open>
  The claim as the specification states it fails twice. With no subscriber
  to \<open>onTimeout()\<close> (threshold one second, sensitivity one millisecond,
  watching started at 1999 ms by a service built at 999 ms), 2001 ms of
  silence send two signals on \<open>timeout$\<close>, deliver nothing and leave the
  service watching. With a subscriber, a service built and started at 999 ms
  has sent no timeout after the full second of silence, and a raw event then
  cancels the countdown.
\<close>

theorem silence_of_T_seconds_without_timeout:
  "timeoutObservers (startWatching (elapse 1000 (constructor example_config 999))) = [] \<and>
   timeout (config (startWatching (elapse 1000 (constructor example_config 999)))) = Some 1 \<and>
   outputs (elapse 2001 (startWatching (elapse 1000 (constructor example_config 999)))) =
     [IdleStatusChanged True, TimeoutSignal True, TimeoutSignal True] \<and>
   live (idleSub (elapse 2001 (startWatching (elapse 1000 (constructor example_config 999))))) \<and>
   timeoutObservers (startWatching example_observed) = [7] \<and>
   timeout (config (startWatching example_observed)) = Some 1 \<and>
   outputs (elapse 1000 (startWatching example_observed)) = [IdleStatusChanged True] \<and>
   outputs (activityEvent DEFAULT_ACTIVITY_EVENTS 0 (elapse 1000 (startWatching example_observed))) =
     [IdleStatusChanged True, IdleStatusChanged False]"
proof -
  let ?u = "startWatching (elapse 1000 (constructor example_config 999))"
  have u: "elapse 2001 ?u = elapse 2000 example_overdue"
    using elapse_add[of 1 2000 ?u] by (simp add: example_overdue_def)
  have e: "expired (example_overdue\<lparr>clock := clock example_overdue + 1\<rparr>)"
    by (simp add: example_overdue_eq expired_def nowInSeconds_def)
  have "timeoutObservers example_overdue = []" by (simp add: example_overdue_eq)
  from elapse_unobserved[OF counting_example_overdue this e, of 2000] obtain c' where
    "counting (elapse 2000 example_overdue) 0 c'"
    "outputs (elapse 2000 example_overdue) =
       outputs example_overdue @
       replicate (nat ((clock example_overdue + int 2000 - 3000) div 1000 + 1)) (TimeoutSignal True)"
    by auto
  with counting_subs[OF this(1)]
  have a: "outputs (elapse 2001 ?u) = [IdleStatusChanged True, TimeoutSignal True, TimeoutSignal True]"
    "live (idleSub (elapse 2001 ?u))"
    unfolding u by (simp_all add: example_overdue_eq numeral_2_eq_2)
  have a0: "timeoutObservers ?u = []" "timeout (config ?u) = Some 1"
    unfolding elapse_never[OF never_started_constructor]
    by (simp_all add: startWatching_frame constructor_def example_config_def spread_def)
  let ?v = "startWatching example_observed"
  let ?i = "example_observed_idle"
  have v: "elapse 1000 ?v = elapse 999 ?i"
    using elapse_add[of 1 999 ?v] by (simp add: example_observed_idle_def)
  have ne: "\<not> expired (?i\<lparr>clock := clock ?i + int 999\<rparr>)"
    by (simp add: example_observed_idle_eq expired_def nowInSeconds_def)
  from elapse_waiting[OF counting_example_observed_idle ne] obtain c'' where
    w: "counting (elapse 999 ?i) 0 c''" "later ?i (int 999) (elapse 999 ?i)"
    "outputs (elapse 999 ?i) = outputs ?i" by blast
  from w(2) have "activityEvents (elapse 999 ?i) = Some DEFAULT_ACTIVITY_EVENTS"
    by (simp add: later_def example_observed_idle_eq)
  from counting_activityEvent[OF w(1) this, of 0] w(3)
  have b: "outputs (elapse 1000 ?v) = [IdleStatusChanged True]"
    "outputs (activityEvent DEFAULT_ACTIVITY_EVENTS 0 (elapse 1000 ?v)) =
       [IdleStatusChanged True, IdleStatusChanged False]"
    unfolding v by (simp_all add: example_observed_idle_eq)
  have b0: "timeoutObservers ?v = [7]" "timeout (config ?v) = Some 1"
    by (simp_all add: startWatching_frame example_observed_def onTimeout_subscribe_def
          constructor_def example_config_def spread_def)
  from a a0 b b0 show ?thesis by simp
qed

subsection \<open>What a running countdown has sent\<close>

lemma sinceIdle_idle [simp]: "sinceIdle (xs @ [IdleStatusChanged True]) = []"
  by (simp add: sinceIdle_def)



lemma runningCountdown_cong:
  "idleSubscription s' = idleSubscription s \<Longrightarrow> store s' = store s \<Longrightarrow>
   runningCountdown s' = runningCountdown s"
  by (simp add: runningCountdown_def idleSub_def split: option.split)

lemma runningCountdown_clock [simp]: "runningCountdown (s\<lparr>clock := t\<rparr>) = runningCountdown s"
  by (rule runningCountdown_cong) simp_all









subsection \<open>What a countdown has sent before the threshold\<close>









subsection \<open>A raw event cancels the countdown\<close>




end
